theory Spec2Isabelle
  imports Main "HOL-Library.AList" "HOL-Library.Char_ord" "HOL-Library.List_Lexorder"
    "HOL-Library.Multiset"
begin

section \<open>Data model\<close>

text \<open>
  The values that the action plugin \<^verbatim>\<open>merge_vars\<close> handles are the trees a YAML or JSON
  loader produces. A Python \<^verbatim>\<open>dict\<close> is an association list: it keeps the insertion order
  of Python, a lookup is \<open>map_of\<close>, and the assignment \<^verbatim>\<open>d[k] = v\<close> is \<open>AList.update\<close>,
  which overwrites in place when the key is there and appends otherwise, as Python does.
  Keys are strings. Floating point numbers are left out of the model. Values are trees:
  the model has value semantics, so it describes runs in which no two places of a tree
  are the same Python object.
\<close>

datatype pyval =
    PNone
  | PBool bool
  | PInt int
  | PStr string
  | PList "pyval list"
  | PDict "(string \<times> pyval) list"

type_synonym pydict = "(string \<times> pyval) list"

text \<open>
  Python's \<^verbatim>\<open>==\<close> on these values: \<^verbatim>\<open>True == 1\<close> and \<^verbatim>\<open>False == 0\<close> hold, lists are
  compared element by element, and two dicts are equal when they have the same number
  of items and every item of the first is matched by an equal value under the same key
  in the second, whatever the insertion order.
\<close>

fun py_eq :: "pyval \<Rightarrow> pyval \<Rightarrow> bool"
  and py_eq_list :: "pyval list \<Rightarrow> pyval list \<Rightarrow> bool"
  and py_eq_items :: "pydict \<Rightarrow> pydict \<Rightarrow> bool" where
  "py_eq PNone PNone = True"
| "py_eq (PBool a) (PBool b) = (a = b)"
| "py_eq (PBool a) (PInt b) = ((if a then 1 else 0) = b)"
| "py_eq (PInt a) (PBool b) = (a = (if b then 1 else 0))"
| "py_eq (PInt a) (PInt b) = (a = b)"
| "py_eq (PStr a) (PStr b) = (a = b)"
| "py_eq (PList a) (PList b) = py_eq_list a b"
| "py_eq (PDict a) (PDict b) = (length a = length b \<and> py_eq_items a b)"
| "py_eq _ _ = False"
| "py_eq_list [] [] = True"
| "py_eq_list (x # xs) (y # ys) = (py_eq x y \<and> py_eq_list xs ys)"
| "py_eq_list _ _ = False"
| "py_eq_items [] b = True"
| "py_eq_items ((k, v) # a) b =
     ((case map_of b k of None \<Rightarrow> False | Some u \<Rightarrow> py_eq v u) \<and> py_eq_items a b)"

text \<open>
  Every failure of a run is a value. The plugin raises \<^verbatim>\<open>AnsibleActionFail\<close> with five
  different messages; the constructors carry the names of the specification's taxonomy
  (\<open>InvalidOptions\<close> and \<open>MissingOptions\<close> are its two configuration errors). The last
  three are the Python exceptions that ill-shaped inputs raise.
\<close>

datatype error =
    InvalidOptions "string list"
  | MissingOptions
  | SourceNotFoundError string
  | InvalidLiteralError
  | InvalidPathError
  | LoaderError string
  | KeyError string
  | TypeError
  | AttributeError

section \<open>Deep merge\<close>

text \<open>
  Modelled from the spec: \<^verbatim>\<open>merge_hash\<close> is imported from \<^verbatim>\<open>ansible.utils.vars\<close> and is not
  among the sources. Section 4.2 of the specification: when both sides are mappings the
  result holds every key of the base that the overlay lacks, unchanged, every key of
  the overlay that the base lacks, and every shared key with the two values merged
  recursively; in every other case the result is the overlay.
\<close>

fun merge :: "pyval \<Rightarrow> pyval \<Rightarrow> pyval"
  and merge_base :: "pydict \<Rightarrow> pydict \<Rightarrow> pydict" where
  "merge (PDict x) (PDict y) =
     PDict (merge_base x y @ filter (\<lambda>(k, w). map_of x k = None) y)"
| "merge x y = y"
| "merge_base [] y = []"
| "merge_base ((k, v) # xs) y =
     (k, case map_of y k of None \<Rightarrow> v | Some w \<Rightarrow> merge v w) # merge_base xs y"

definition merge_hash :: "pydict \<Rightarrow> pydict \<Rightarrow> pydict" where
  "merge_hash x y = merge_base x y @ filter (\<lambda>(k, w). map_of x k = None) y"

text \<open>\<^verbatim>\<open>isinstance(v, dict)\<close>.\<close>

definition is_dict :: "pyval \<Rightarrow> bool" where
  "is_dict v = (case v of PDict _ \<Rightarrow> True | _ \<Rightarrow> False)"

section \<open>Structural diff\<close>

type_synonym diff_entry = "string \<times> pyval \<times> pyval"

text \<open>
  \<^verbatim>\<open>d1.keys() | d2.keys()\<close> is a Python set, whose iteration order is not specified.
  \<open>key_union\<close> is one enumeration of it: the keys of \<open>d1\<close> in order and then the keys that
  only \<open>d2\<close> has. \<open>deep_diff\<close> below iterates in that order; \<open>deep_diff_by\<close> is the same
  function with the enumeration as a parameter, for the properties that must hold in
  whatever order Python iterates the set.
\<close>

definition key_union :: "pydict \<Rightarrow> pydict \<Rightarrow> string list" where
  "key_union d1 d2 =
     remdups (map fst d1) @ filter (\<lambda>k. k \<notin> set (map fst d1)) (remdups (map fst d2))"

definition new_path :: "string \<Rightarrow> string \<Rightarrow> string" where
  "new_path path key = (if path \<noteq> [] then path @ ''.'' @ key else key)"

lemma map_of_size: "map_of d k = Some v \<Longrightarrow> size v < size (PDict d)"
  by (induction d) (auto split: if_splits)

text \<open>
  \<^verbatim>\<open>deep_diff\<close>: one pass over the union of the keys; the entries of each key are
  appended to \<^verbatim>\<open>diffs\<close>. A side that lacks the key is written \<^verbatim>\<open>None\<close>, that is \<open>PNone\<close>.
  The branch in which neither side has the key cannot be reached (the key comes from
  the union).
\<close>

function deep_diff :: "pydict \<Rightarrow> pydict \<Rightarrow> string \<Rightarrow> diff_entry list" where
  "deep_diff d1 d2 path =
     concat (map (\<lambda>key.
       (case map_of d1 key of
          None \<Rightarrow> (case map_of d2 key of
                     None \<Rightarrow> []
                   | Some v2 \<Rightarrow> [(new_path path key, PNone, v2)])
        | Some v1 \<Rightarrow> (case map_of d2 key of
                     None \<Rightarrow> [(new_path path key, v1, PNone)]
                   | Some v2 \<Rightarrow> (case v1 of
                        PDict a \<Rightarrow> (case v2 of
                             PDict b \<Rightarrow> deep_diff a b (new_path path key)
                           | _ \<Rightarrow> if \<not> py_eq v1 v2 then [(new_path path key, v1, v2)] else [])
                      | _ \<Rightarrow> if \<not> py_eq v1 v2 then [(new_path path key, v1, v2)] else []))))
       (key_union d1 d2))"
  by pat_completeness auto
termination
  by (relation "measure (\<lambda>(d1, d2, path). size (PDict d1))") (auto dest: map_of_size)

declare deep_diff.simps [simp del]

text \<open>
  \<^verbatim>\<open>deep_diff\<close> again, iterating the keys in the order \<open>keys_of d1 d2\<close>.
\<close>

function deep_diff_by ::
  "(pydict \<Rightarrow> pydict \<Rightarrow> string list) \<Rightarrow> pydict \<Rightarrow> pydict \<Rightarrow> string \<Rightarrow> diff_entry list" where
  "deep_diff_by keys_of d1 d2 path =
     concat (map (\<lambda>key.
       (case map_of d1 key of
          None \<Rightarrow> (case map_of d2 key of
                     None \<Rightarrow> []
                   | Some v2 \<Rightarrow> [(new_path path key, PNone, v2)])
        | Some v1 \<Rightarrow> (case map_of d2 key of
                     None \<Rightarrow> [(new_path path key, v1, PNone)]
                   | Some v2 \<Rightarrow> (case v1 of
                        PDict a \<Rightarrow> (case v2 of
                             PDict b \<Rightarrow> deep_diff_by keys_of a b (new_path path key)
                           | _ \<Rightarrow> if \<not> py_eq v1 v2 then [(new_path path key, v1, v2)] else [])
                      | _ \<Rightarrow> if \<not> py_eq v1 v2 then [(new_path path key, v1, v2)] else []))))
       (keys_of d1 d2))"
  by pat_completeness auto
termination
  by (relation "measure (\<lambda>(keys_of, d1, d2, path). size (PDict d1))") (auto dest: map_of_size)

declare deep_diff_by.simps [simp del]

section \<open>The run and its surroundings\<close>

text \<open>
  What a run reads from outside: the file system (\<^verbatim>\<open>os.path.isfile\<close>, \<^verbatim>\<open>os.path.isdir\<close>,
  \<^verbatim>\<open>os.listdir\<close>), Ansible's loader (\<open>None\<close> when it raises; its second argument says
  whether \<^verbatim>\<open>trusted_as_template=True\<close> was passed), the templar, and the extra-vars of
  the variable manager. They are parameters of the model: nothing is assumed of them
  except that they do not change during a run.
\<close>

record world =
  isfile :: "string \<Rightarrow> bool"
  isdir :: "string \<Rightarrow> bool"
  listdir :: "string \<Rightarrow> string list"
  load_from_file :: "string \<Rightarrow> bool \<Rightarrow> pyval option"
  template :: "pyval \<Rightarrow> pyval"
  extra_vars :: pydict

text \<open>
  \<^verbatim>\<open>self._task.args\<close>. The four recognised options are fields (\<open>None\<close>: the key is not
  in the dict); \<open>other_args\<close> are the further keys of the dict. The model takes \<^verbatim>\<open>files\<close>
  to be a list of strings, \<^verbatim>\<open>extensions\<close> a list of strings and \<^verbatim>\<open>ignore_missing_files\<close> a
  boolean; \<^verbatim>\<open>literals\<close> is any value, since the code checks its shape.
\<close>

record task_args =
  files :: "string list option"
  literals :: "pyval option"
  ignore_missing_files :: "bool option"
  extensions :: "string list option"
  other_args :: "string list"

definition VALID_ARGUMENTS :: "string list" where
  "VALID_ARGUMENTS = [''files'', ''literals'', ''ignore_missing_files'', ''extensions'']"

definition arg_names :: "task_args \<Rightarrow> string list" where
  "arg_names a =
     (case files a of None \<Rightarrow> [] | Some _ \<Rightarrow> [''files'']) @
     (case literals a of None \<Rightarrow> [] | Some _ \<Rightarrow> [''literals'']) @
     (case ignore_missing_files a of None \<Rightarrow> [] | Some _ \<Rightarrow> [''ignore_missing_files'']) @
     (case extensions a of None \<Rightarrow> [] | Some _ \<Rightarrow> [''extensions'']) @
     other_args a"

text \<open>
  The variables of \<^verbatim>\<open>run\<close>. The statement
  \<^verbatim>\<open>self._result['ansible_included_var_files'] = files = []\<close> binds the local \<^verbatim>\<open>files\<close> and
  the result's entry to one list object: \<open>SameList\<close> says that \<^verbatim>\<open>files\<close> still is that
  object, \<open>OwnList fs\<close> that it has been rebound to a list of its own.
\<close>

datatype files_ref = SameList | OwnList "string list"

record run_state =
  included_var_files :: "string list"
  files_var :: files_ref
  hostvars_to_update :: pydict
  hostvars_to_update_files_orig :: pydict
  changed :: bool

definition files_of :: "run_state \<Rightarrow> string list" where
  "files_of st = (case files_var st of SameList \<Rightarrow> included_var_files st | OwnList fs \<Rightarrow> fs)"

record run_result =
  result_changed :: bool
  ansible_included_var_files :: "string list option"
  ansible_facts :: pydict

subsection \<open>Paths\<close>

text \<open>\<^verbatim>\<open>os.path.join\<close> of two components and the extension of \<^verbatim>\<open>os.path.splitext\<close> (POSIX).\<close>

definition path_join :: "string \<Rightarrow> string \<Rightarrow> string" where
  "path_join a b =
     (if take 1 b = ''/'' then b
      else if a = [] \<or> last a = CHR ''/'' then a @ b
      else a @ ''/'' @ b)"

definition splitext_ext :: "string \<Rightarrow> string" where
  "splitext_ext p =
     (let b = rev (takeWhile (\<lambda>c. c \<noteq> CHR ''/'') (rev p));
          ext = rev (takeWhile (\<lambda>c. c \<noteq> CHR ''.'') (rev b));
          stem = take (length b - Suc (length ext)) b
      in if CHR ''.'' \<in> set b \<and> list_ex (\<lambda>c. c \<noteq> CHR ''.'') stem then CHR ''.'' # ext else [])"

definition extension_allowed :: "string list option \<Rightarrow> string \<Rightarrow> bool" where
  "extension_allowed valid_extensions filename =
     (case valid_extensions of
        None \<Rightarrow> True
      | Some exts \<Rightarrow> exts = [] \<or> drop 1 (splitext_ext filename) \<in> set exts)"

subsection \<open>Resolving the sources\<close>

definition dirfiles :: "world \<Rightarrow> string \<Rightarrow> string list" where
  "dirfiles w source =
     sort (map (path_join source)
       (filter (\<lambda>filename. isfile w (path_join source filename)) (listdir w source)))"

text \<open>
  The first loop of \<^verbatim>\<open>run\<close>. \<^verbatim>\<open>files.append(source)\<close> changes the list object in place,
  so while \<^verbatim>\<open>files\<close> is the result's list the source lands in the result too;
  \<^verbatim>\<open>files = files + dirfiles\<close> builds a new list and rebinds \<^verbatim>\<open>files\<close> to it.
\<close>

definition files_append :: "string \<Rightarrow> run_state \<Rightarrow> run_state" where
  "files_append source st =
     (case files_var st of
        SameList \<Rightarrow> st\<lparr>included_var_files := included_var_files st @ [source]\<rparr>
      | OwnList fs \<Rightarrow> st\<lparr>files_var := OwnList (fs @ [source])\<rparr>)"

fun resolve_sources :: "world \<Rightarrow> bool \<Rightarrow> string list \<Rightarrow> run_state \<Rightarrow> error + run_state" where
  "resolve_sources w ign [] st = Inr st"
| "resolve_sources w ign (source # rest) st =
     (if isfile w source then resolve_sources w ign rest (files_append source st)
      else if isdir w source then
        resolve_sources w ign rest (st\<lparr>files_var := OwnList (files_of st @ dirfiles w source)\<rparr>)
      else if \<not> (isfile w source \<or> isdir w source) \<and> ign then resolve_sources w ign rest st
      else Inl (SourceNotFoundError source))"

subsection \<open>Loading and merging the files\<close>

text \<open>\<^verbatim>\<open>v[key]\<close> for a string key: only a dict can be subscripted by a string.\<close>

definition subscript :: "pyval \<Rightarrow> string \<Rightarrow> error + pyval" where
  "subscript v key =
     (case v of
        PDict d \<Rightarrow> (case map_of d key of None \<Rightarrow> Inl (KeyError key) | Some u \<Rightarrow> Inr u)
      | _ \<Rightarrow> Inl TypeError)"

text \<open>
  \<^verbatim>\<open>(major, minor) >= (2, 19)\<close>: Python compares the first pair of items that are not
  equal, and an item that is not a number cannot be ordered against a number.
\<close>

definition py_ge_int :: "pyval \<Rightarrow> int \<Rightarrow> error + bool" where
  "py_ge_int v n =
     (case v of
        PInt i \<Rightarrow> Inr (n \<le> i)
      | PBool b \<Rightarrow> Inr (n \<le> (if b then 1 else 0))
      | _ \<Rightarrow> Inl TypeError)"

definition version_ge_2_19 :: "pyval \<Rightarrow> pyval \<Rightarrow> error + bool" where
  "version_ge_2_19 major minor =
     (if \<not> py_eq major (PInt 2) then py_ge_int major 2
      else if \<not> py_eq minor (PInt 19) then py_ge_int minor 19
      else Inr True)"

definition trusted_as_template :: "pydict \<Rightarrow> error + bool" where
  "trusted_as_template task_vars =
     (case subscript (PDict task_vars) ''ansible_version'' of
        Inl e \<Rightarrow> Inl e
      | Inr av \<Rightarrow>
         (case subscript av ''major'' of
            Inl e \<Rightarrow> Inl e
          | Inr major \<Rightarrow>
             (case subscript av ''minor'' of
                Inl e \<Rightarrow> Inl e
              | Inr minor \<Rightarrow> version_ge_2_19 major minor)))"

text \<open>
  The pre-seeding loop over the items of the loaded file: a top-level key that the
  target lacks and \<^verbatim>\<open>task_vars\<close> has is copied into the target (\<^verbatim>\<open>deepcopy\<close> is the
  identity on values) and recorded in \<^verbatim>\<open>hostvars_to_update_files_orig\<close>.
\<close>

fun preseed :: "pydict \<Rightarrow> string list \<Rightarrow> run_state \<Rightarrow> run_state" where
  "preseed task_vars [] st = st"
| "preseed task_vars (k # ks) st =
     preseed task_vars ks
       (if map_of (hostvars_to_update st) k = None \<and> map_of task_vars k \<noteq> None then
          st\<lparr>hostvars_to_update_files_orig :=
                AList.update k (the (map_of task_vars k)) (hostvars_to_update_files_orig st),
             hostvars_to_update :=
                AList.update k (the (map_of task_vars k)) (hostvars_to_update st)\<rparr>
        else st)"

text \<open>
  The body of \<^verbatim>\<open>for filename in files\<close>. Iterating \<^verbatim>\<open>cur_file_vars.items()\<close> needs a dict:
  any other loaded value raises \<^verbatim>\<open>AttributeError\<close>.
\<close>

definition load_file ::
  "world \<Rightarrow> pydict \<Rightarrow> string list option \<Rightarrow> string \<Rightarrow> run_state \<Rightarrow> error + run_state" where
  "load_file w task_vars valid_extensions filename st =
     (if extension_allowed valid_extensions filename then
        (case trusted_as_template task_vars of
           Inl e \<Rightarrow> Inl e
         | Inr trusted \<Rightarrow>
            (case load_from_file w filename trusted of
               None \<Rightarrow> Inl (LoaderError filename)
             | Some (PDict cur_file_vars) \<Rightarrow>
                 (let st1 = preseed task_vars (map fst cur_file_vars) st;
                      st2 = st1\<lparr>hostvars_to_update :=
                                  merge_hash (hostvars_to_update st1) cur_file_vars\<rparr>
                  in Inr (st2\<lparr>included_var_files := included_var_files st2 @ [filename]\<rparr>))
             | Some _ \<Rightarrow> Inl AttributeError))
      else Inr st)"

text \<open>
  \<^verbatim>\<open>for filename in files\<close>: Python's list iterator keeps an index into the list object
  and stops when the index reaches the length the list has at that moment. The body
  appends to the result's list, which can be the list that is iterated, so the loop
  need not end: not returning is the value \<open>None\<close>.
\<close>

partial_function (option) load_files ::
  "world \<Rightarrow> pydict \<Rightarrow> string list option \<Rightarrow> nat \<Rightarrow> run_state \<Rightarrow> (error + run_state) option" where
  "load_files w task_vars valid_extensions i st =
     (if i < length (files_of st) then
        (case load_file w task_vars valid_extensions (files_of st ! i) st of
           Inl e \<Rightarrow> Some (Inl e)
         | Inr st' \<Rightarrow> load_files w task_vars valid_extensions (Suc i) st')
      else Some (Inr st))"

text \<open>
  The keys of the target that are also extra-vars are collected first, then each is
  overwritten with the extra-var.
\<close>

definition protect :: "world \<Rightarrow> pydict \<Rightarrow> pydict" where
  "protect w hv =
     fold (\<lambda>unmergable h. AList.update unmergable (the (map_of (extra_vars w) unmergable)) h)
       (filter (\<lambda>k. map_of (extra_vars w) k \<noteq> None) (map fst hv)) hv"

definition files_phase ::
  "world \<Rightarrow> task_args \<Rightarrow> pydict \<Rightarrow> run_state \<Rightarrow> (error + run_state) option" where
  "files_phase w args task_vars st =
     (case files args of
        None \<Rightarrow> Some (Inr st)
      | Some sources \<Rightarrow>
         (case resolve_sources w (case ignore_missing_files args of None \<Rightarrow> False | Some b \<Rightarrow> b)
                 sources (st\<lparr>included_var_files := [], files_var := SameList\<rparr>) of
            Inl e \<Rightarrow> Some (Inl e)
          | Inr st1 \<Rightarrow>
             (case load_files w task_vars (extensions args) 0
                     (st1\<lparr>hostvars_to_update_files_orig := []\<rparr>) of
                None \<Rightarrow> None
              | Some (Inl e) \<Rightarrow> Some (Inl e)
              | Some (Inr st2) \<Rightarrow>
                 (let st3 = st2\<lparr>hostvars_to_update := protect w (hostvars_to_update st2)\<rparr>;
                      hostvars_files_diff =
                        deep_diff (hostvars_to_update_files_orig st3) (hostvars_to_update st3) []
                  in Some (Inr (if length hostvars_files_diff > 0
                                then st3\<lparr>changed := True\<rparr> else st3))))))"

subsection \<open>Literal assignments\<close>

text \<open>\<^verbatim>\<open>path_str.split('.')\<close>: the pieces between the dots; there is always at least one.\<close>

fun split_dot :: "string \<Rightarrow> string list" where
  "split_dot [] = [[]]"
| "split_dot (c # cs) =
     (if c = CHR ''.'' then [] # split_dot cs
      else (case split_dot cs of [] \<Rightarrow> [[c]] | piece # pieces \<Rightarrow> (c # piece) # pieces))"

text \<open>
  The walk along \<^verbatim>\<open>keys[:-1]\<close> and the assignment to \<^verbatim>\<open>keys[-1]\<close>, on the dict \<^verbatim>\<open>current\<close>.
  The result is the dict after the assignment and whether \<^verbatim>\<open>changed\<close> was set:
  \<^verbatim>\<open>current.get(keys[-1])\<close> is \<^verbatim>\<open>None\<close> for a key that is not there. The list of keys is
  never empty where the function is called.
\<close>

fun set_path :: "string list \<Rightarrow> pyval \<Rightarrow> pydict \<Rightarrow> pydict \<times> bool" where
  "set_path [] new_value current = (current, False)"
| "set_path [key] new_value current =
     (AList.update key new_value current,
      \<not> py_eq (case map_of current key of None \<Rightarrow> PNone | Some v \<Rightarrow> v) new_value)"
| "set_path (key # keys) new_value current =
     (let sub = (case map_of current key of Some (PDict d) \<Rightarrow> d | _ \<Rightarrow> []);
          r = set_path keys new_value sub
      in (AList.update key (PDict (fst r)) current, snd r))"

definition seed_top :: "pydict \<Rightarrow> string \<Rightarrow> pydict \<Rightarrow> pydict" where
  "seed_top task_vars key hv =
     (if map_of hv key = None \<and> map_of task_vars key \<noteq> None
      then AList.update key (the (map_of task_vars key)) hv else hv)"

definition apply_literal :: "world \<Rightarrow> pydict \<Rightarrow> pyval \<Rightarrow> run_state \<Rightarrow> error + run_state" where
  "apply_literal w task_vars item st =
     (case item of
        PDict d \<Rightarrow>
          (case map_of d ''path'' of
             None \<Rightarrow> Inl InvalidLiteralError
           | Some p \<Rightarrow>
              (case map_of d ''value'' of
                 None \<Rightarrow> Inl InvalidLiteralError
               | Some v \<Rightarrow>
                  (case template w p of
                     PStr path_str \<Rightarrow>
                       (let new_value = template w v; keys = split_dot path_str in
                        if keys = [] then Inl InvalidPathError
                        else if map_of (extra_vars w) (hd keys) \<noteq> None then Inr st
                        else
                          (let r = set_path keys new_value
                                     (seed_top task_vars (hd keys) (hostvars_to_update st))
                           in Inr (st\<lparr>hostvars_to_update := fst r,
                                       changed := (changed st \<or> snd r)\<rparr>)))
                   | _ \<Rightarrow> Inl AttributeError)))
      | _ \<Rightarrow> Inl InvalidLiteralError)"

fun apply_literals :: "world \<Rightarrow> pydict \<Rightarrow> pyval list \<Rightarrow> run_state \<Rightarrow> error + run_state" where
  "apply_literals w task_vars [] st = Inr st"
| "apply_literals w task_vars (item # items) st =
     (case apply_literal w task_vars item st of
        Inl e \<Rightarrow> Inl e
      | Inr st' \<Rightarrow> apply_literals w task_vars items st')"

definition literals_phase :: "world \<Rightarrow> task_args \<Rightarrow> pydict \<Rightarrow> run_state \<Rightarrow> error + run_state" where
  "literals_phase w args task_vars st =
     (case literals args of
        None \<Rightarrow> Inr st
      | Some (PList items) \<Rightarrow> apply_literals w task_vars items st
      | Some _ \<Rightarrow> Inl InvalidLiteralError)"

subsection \<open>The run\<close>

definition initial_state :: run_state where
  "initial_state =
     \<lparr>included_var_files = [], files_var = SameList, hostvars_to_update = [],
      hostvars_to_update_files_orig = [], changed = False\<rparr>"

definition finish :: "task_args \<Rightarrow> run_state \<Rightarrow> run_result" where
  "finish args st =
     \<lparr>result_changed = changed st,
      ansible_included_var_files =
        (case files args of None \<Rightarrow> None | Some _ \<Rightarrow> Some (included_var_files st)),
      ansible_facts = hostvars_to_update st\<rparr>"

definition run :: "world \<Rightarrow> task_args \<Rightarrow> pydict \<Rightarrow> (error + run_result) option" where
  "run w args task_vars =
     (let invalid_args = filter (\<lambda>arg. arg \<notin> set VALID_ARGUMENTS) (arg_names args) in
      if invalid_args \<noteq> [] then Some (Inl (InvalidOptions invalid_args))
      else if files args = None \<and> literals args = None then Some (Inl MissingOptions)
      else
        (case files_phase w args task_vars initial_state of
           None \<Rightarrow> None
         | Some (Inl e) \<Rightarrow> Some (Inl e)
         | Some (Inr st) \<Rightarrow>
            (case literals_phase w args task_vars st of
               Inl e \<Rightarrow> Some (Inl e)
             | Inr st' \<Rightarrow> Some (Inr (finish args st')))))"

section \<open>Notions used to state the properties\<close>

text \<open>
  The value found by following a list of keys through nested dicts, as the walk of a
  literal assignment does: nothing is found when a key is missing or when a value on
  the way is not a dict.
\<close>

fun get_path :: "string list \<Rightarrow> pydict \<Rightarrow> pyval option" where
  "get_path [] current = None"
| "get_path [key] current = map_of current key"
| "get_path (key # keys) current =
     (case map_of current key of Some (PDict d) \<Rightarrow> get_path keys d | _ \<Rightarrow> None)"

text \<open>A value is well formed when no dict in it has a key twice, as in Python.\<close>

fun wf_val :: "pyval \<Rightarrow> bool"
  and wf_list :: "pyval list \<Rightarrow> bool"
  and wf_items :: "pydict \<Rightarrow> bool" where
  "wf_val (PList xs) = wf_list xs"
| "wf_val (PDict d) = (distinct (map fst d) \<and> wf_items d)"
| "wf_val _ = True"
| "wf_list [] = True"
| "wf_list (x # xs) = (wf_val x \<and> wf_list xs)"
| "wf_items [] = True"
| "wf_items ((k, v) # d) = (wf_val v \<and> wf_items d)"

text \<open>
  What one pass of the loop of \<^verbatim>\<open>deep_diff\<close> appends for the key \<open>key\<close>.
\<close>

definition diff_key :: "pydict \<Rightarrow> pydict \<Rightarrow> string \<Rightarrow> string \<Rightarrow> diff_entry list" where
  "diff_key d1 d2 path key =
       (case map_of d1 key of
          None \<Rightarrow> (case map_of d2 key of
                     None \<Rightarrow> []
                   | Some v2 \<Rightarrow> [(new_path path key, PNone, v2)])
        | Some v1 \<Rightarrow> (case map_of d2 key of
                     None \<Rightarrow> [(new_path path key, v1, PNone)]
                   | Some v2 \<Rightarrow> (case v1 of
                        PDict a \<Rightarrow> (case v2 of
                             PDict b \<Rightarrow> deep_diff a b (new_path path key)
                           | _ \<Rightarrow> if \<not> py_eq v1 v2 then [(new_path path key, v1, v2)] else [])
                      | _ \<Rightarrow> if \<not> py_eq v1 v2 then [(new_path path key, v1, v2)] else [])))"

text \<open>
  The same for \<^verbatim>\<open>deep_diff_by\<close>, as a function of what the two mappings hold under the
  key (\<open>None\<close> when the key is not there).
\<close>

definition diff_key_by ::
  "(pydict \<Rightarrow> pydict \<Rightarrow> string list) \<Rightarrow> string \<Rightarrow> string \<Rightarrow> pyval option \<Rightarrow> pyval option \<Rightarrow> diff_entry list" where
  "diff_key_by keys_of path key o1 o2 =
       (case o1 of
          None \<Rightarrow> (case o2 of
                     None \<Rightarrow> []
                   | Some v2 \<Rightarrow> [(new_path path key, PNone, v2)])
        | Some v1 \<Rightarrow> (case o2 of
                     None \<Rightarrow> [(new_path path key, v1, PNone)]
                   | Some v2 \<Rightarrow> (case v1 of
                        PDict a \<Rightarrow> (case v2 of
                             PDict b \<Rightarrow> deep_diff_by keys_of a b (new_path path key)
                           | _ \<Rightarrow> if \<not> py_eq v1 v2 then [(new_path path key, v1, v2)] else [])
                      | _ \<Rightarrow> if \<not> py_eq v1 v2 then [(new_path path key, v1, v2)] else [])))"

text \<open>
  Section 4.1 of the specification, entry by entry: an existing file stands for itself,
  an existing directory for its direct file children sorted by name, and an entry that
  is neither is missing. The names that \<^verbatim>\<open>os.listdir\<close> returns hold no slash; the
  properties only need that they do not start with one.
\<close>

definition missing :: "world \<Rightarrow> string \<Rightarrow> bool" where
  "missing w source = (\<not> isfile w source \<and> \<not> isdir w source)"

definition expand_source :: "world \<Rightarrow> string \<Rightarrow> string list" where
  "expand_source w source =
     (if isfile w source then [source]
      else if isdir w source then
        map (path_join source)
          (sort (filter (\<lambda>filename. isfile w (path_join source filename)) (listdir w source)))
      else [])"

definition plain_names :: "string list \<Rightarrow> bool" where
  "plain_names names = list_all (\<lambda>filename. take 1 filename \<noteq> ''/'') names"

text \<open>The example of the specification: the directory \<open>d1\<close> holds \<open>b.yml\<close> and \<open>a.yml\<close>.\<close>

definition d1_world :: world where
  "d1_world =
     \<lparr>isfile = (\<lambda>p. p \<in> set [''d1/a.yml'', ''d1/b.yml'', ''f1.yml'']),
      isdir = (\<lambda>p. p = ''d1''),
      listdir = (\<lambda>p. if p = ''d1'' then [''b.yml'', ''a.yml''] else []),
      load_from_file = (\<lambda>p t. None), template = (\<lambda>v. v), extra_vars = []\<rparr>"

text \<open>
  The loop over a list that the body does not touch: what \<^verbatim>\<open>for filename in files\<close> does
  once \<^verbatim>\<open>files\<close> is a list of its own.
\<close>

fun load_all :: "world \<Rightarrow> pydict \<Rightarrow> string list option \<Rightarrow> string list \<Rightarrow> run_state \<Rightarrow> error + run_state" where
  "load_all w task_vars valid_extensions [] st = Inr st"
| "load_all w task_vars valid_extensions (filename # rest) st =
     (case load_file w task_vars valid_extensions filename st of
        Inl e \<Rightarrow> Inl e
      | Inr st' \<Rightarrow> load_all w task_vars valid_extensions rest st')"

text \<open>
  Example inputs: the directory \<open>d1\<close> again, with a loader that returns for the file \<open>p\<close>
  the mapping \<open>{p: 1}\<close>, and the variables of a host on Ansible 2.16.
\<close>

definition yml_world :: world where
  "yml_world = d1_world\<lparr>load_from_file := (\<lambda>p t. Some (PDict [(p, PInt 1)]))\<rparr>"

definition version_vars :: pydict where
  "version_vars = [(''ansible_version'', PDict [(''major'', PInt 2), (''minor'', PInt 16)])]"

text \<open>Every name in the two lists of a state is an existing file.\<close>

definition only_files :: "world \<Rightarrow> run_state \<Rightarrow> bool" where
  "only_files w st =
     (list_all (isfile w) (included_var_files st) \<and> list_all (isfile w) (files_of st))"

text \<open>
  An example with a pinned key: every file loads to \<open>{region: p, zone: 1}\<close> and the
  extra-vars pin \<open>region\<close>.
\<close>

definition pinned_world :: world where
  "pinned_world =
     d1_world\<lparr>load_from_file := (\<lambda>p t. Some (PDict [(''region'', PStr p), (''zone'', PInt 1)])),
              extra_vars := [(''region'', PStr ''pinned'')]\<rparr>"

section \<open>The in-place updates, on a store of objects\<close>

text \<open>
  The trees above are values. Whether the run can change the variables it was given
  depends on which dict objects are shared, so the statements of \<^verbatim>\<open>run\<close> that update a
  dict in place are modelled a second time on a store: a dict is an object at an
  address, a value holds the addresses of the dicts in it, and \<^verbatim>\<open>d[k] = v\<close> changes the
  object at the address of \<open>d\<close>. Lists are not updated by the run and stay values.
\<close>

datatype hval =
    HNone
  | HBool bool
  | HInt int
  | HStr string
  | HList "hval list"
  | HRef nat

record store =
  cells :: "nat \<Rightarrow> (string \<times> hval) list"
  next_free :: nat

fun refs :: "hval \<Rightarrow> nat set"
  and refs_list :: "hval list \<Rightarrow> nat set" where
  "refs (HRef a) = {a}"
| "refs (HList vs) = refs_list vs"
| "refs v = {}"
| "refs_list [] = {}"
| "refs_list (v # vs) = refs v \<union> refs_list vs"

definition new_dict :: "store \<Rightarrow> nat \<times> store" where
  "new_dict s =
     (next_free s, s\<lparr>cells := (cells s)(next_free s := []), next_free := Suc (next_free s)\<rparr>)"

definition setitem :: "nat \<Rightarrow> string \<Rightarrow> hval \<Rightarrow> store \<Rightarrow> store" where
  "setitem a key v s = s\<lparr>cells := (cells s)(a := AList.update key v (cells s a))\<rparr>"

text \<open>
  \<^verbatim>\<open>copy.deepcopy\<close>: every dict reached is copied into a new object. The first argument
  bounds the depth of the recursion, which follows the addresses in the store; the copy
  is \<open>None\<close> when the bound is reached. (Python keeps a memo of the objects it has
  copied; the model copies an object once for each place it occurs in.)
\<close>

fun deepcopy :: "nat \<Rightarrow> hval \<Rightarrow> store \<Rightarrow> (hval \<times> store) option"
  and deepcopy_list :: "nat \<Rightarrow> hval list \<Rightarrow> store \<Rightarrow> (hval list \<times> store) option"
  and deepcopy_items :: "nat \<Rightarrow> (string \<times> hval) list \<Rightarrow> nat \<Rightarrow> store \<Rightarrow> store option" where
  "deepcopy 0 v s = None"
| "deepcopy (Suc n) (HRef a) s =
     (case deepcopy_items n (cells s a) (fst (new_dict s)) (snd (new_dict s)) of
        None \<Rightarrow> None
      | Some s' \<Rightarrow> Some (HRef (fst (new_dict s)), s'))"
| "deepcopy (Suc n) (HList vs) s =
     (case deepcopy_list n vs s of
        None \<Rightarrow> None
      | Some r \<Rightarrow> Some (HList (fst r), snd r))"
| "deepcopy (Suc n) v s = Some (v, s)"
| "deepcopy_list n [] s = Some ([], s)"
| "deepcopy_list n (v # vs) s =
     (case deepcopy n v s of
        None \<Rightarrow> None
      | Some r1 \<Rightarrow>
         (case deepcopy_list n vs (snd r1) of
            None \<Rightarrow> None
          | Some r2 \<Rightarrow> Some (fst r1 # fst r2, snd r2)))"
| "deepcopy_items n [] b s = Some s"
| "deepcopy_items n ((key, v) # items) b s =
     (case deepcopy n v s of
        None \<Rightarrow> None
      | Some r \<Rightarrow> deepcopy_items n items b (setitem b key (fst r) (snd r)))"


text \<open>
  The walk of a literal assignment (lines 200 to 211 of the source): \<^verbatim>\<open>current\<close> is an
  address, \<^verbatim>\<open>current[key] = {}\<close> stores a new object into the object at \<^verbatim>\<open>current\<close>, and the
  last statement stores the new value into the object the walk has reached. The
  comparison that sets \<^verbatim>\<open>changed\<close> reads the store and is left out.
\<close>

definition sub_dict :: "store \<Rightarrow> nat \<Rightarrow> string \<Rightarrow> nat option" where
  "sub_dict s current key =
     (case map_of (cells s current) key of Some (HRef a) \<Rightarrow> Some a | _ \<Rightarrow> None)"

fun h_set_path :: "string list \<Rightarrow> hval \<Rightarrow> nat \<Rightarrow> store \<Rightarrow> store" where
  "h_set_path [] new_value current s = s"
| "h_set_path [key] new_value current s = setitem current key new_value s"
| "h_set_path (key # keys) new_value current s =
     (case sub_dict s current key of
        Some a \<Rightarrow> h_set_path keys new_value a s
      | None \<Rightarrow>
         h_set_path keys new_value (fst (new_dict s))
           (setitem current key (HRef (fst (new_dict s))) (snd (new_dict s))))"

text \<open>
  Seeding a top-level key (lines 196 and 197), one literal (lines 192 to 211, its path and
  its value as the templar returned them), and the list of literals. \<open>tv\<close>, \<open>ev\<close> and
  \<open>hv\<close> are the addresses of \<^verbatim>\<open>task_vars\<close>, of the extra-vars and of
  \<^verbatim>\<open>hostvars_to_update\<close>.
\<close>

definition h_seed_top :: "nat \<Rightarrow> nat \<Rightarrow> string \<Rightarrow> nat \<Rightarrow> store \<Rightarrow> store option" where
  "h_seed_top n tv key hv s =
     (if map_of (cells s hv) key = None \<and> map_of (cells s tv) key \<noteq> None then
        (case deepcopy n (the (map_of (cells s tv) key)) s of
           None \<Rightarrow> None
         | Some r \<Rightarrow> Some (setitem hv key (fst r) (snd r)))
      else Some s)"

definition h_apply_literal ::
  "nat \<Rightarrow> nat \<Rightarrow> nat \<Rightarrow> string \<times> hval \<Rightarrow> nat \<Rightarrow> store \<Rightarrow> store option" where
  "h_apply_literal n tv ev item hv s =
     (let keys = split_dot (fst item); new_value = snd item in
      if map_of (cells s ev) (hd keys) \<noteq> None then Some s
      else
        (case h_seed_top n tv (hd keys) hv s of
           None \<Rightarrow> None
         | Some s1 \<Rightarrow> Some (h_set_path keys new_value hv s1)))"

fun h_apply_literals ::
  "nat \<Rightarrow> nat \<Rightarrow> nat \<Rightarrow> (string \<times> hval) list \<Rightarrow> nat \<Rightarrow> store \<Rightarrow> store option" where
  "h_apply_literals n tv ev [] hv s = Some s"
| "h_apply_literals n tv ev (item # items) hv s =
     (case h_apply_literal n tv ev item hv s of
        None \<Rightarrow> None
      | Some s1 \<Rightarrow> h_apply_literals n tv ev items hv s1)"

text \<open>
  A set of addresses is owned and closed when its objects are allocated and hold
  addresses of the set only. The target's root is in order when each of its values is
  under a pinned key or holds owned addresses only.
\<close>

definition owned_closed :: "store \<Rightarrow> nat set \<Rightarrow> bool" where
  "owned_closed s own =
     (\<forall>a \<in> own. a < next_free s \<and> (\<forall>p \<in> set (cells s a). refs (snd p) \<subseteq> own))"

definition root_ok :: "store \<Rightarrow> nat \<Rightarrow> string set \<Rightarrow> nat set \<Rightarrow> bool" where
  "root_ok s hv pinned own =
     (hv < next_free s \<and> hv \<notin> own \<and>
      (\<forall>p \<in> set (cells s hv). fst p \<in> pinned \<or> refs (snd p) \<subseteq> own))"

text \<open>
  The pre-seeding loop of the files phase (lines 153 to 157): the snapshot
  \<^verbatim>\<open>hostvars_to_update_files_orig\<close>, at the address \<open>orig\<close>, receives the object of
  \<^verbatim>\<open>task_vars\<close> itself, the target a deep copy.
\<close>

fun h_preseed :: "nat \<Rightarrow> nat \<Rightarrow> string list \<Rightarrow> nat \<Rightarrow> nat \<Rightarrow> store \<Rightarrow> store option" where
  "h_preseed n tv [] hv orig s = Some s"
| "h_preseed n tv (k # ks) hv orig s =
     (if map_of (cells s hv) k = None \<and> map_of (cells s tv) k \<noteq> None then
        (case deepcopy n (the (map_of (cells (setitem orig k (the (map_of (cells s tv) k)) s) tv) k))
                (setitem orig k (the (map_of (cells s tv) k)) s) of
           None \<Rightarrow> None
         | Some r \<Rightarrow> h_preseed n tv ks hv orig (setitem hv k (fst r) (snd r)))
      else h_preseed n tv ks hv orig s)"

text \<open>
  Modelled from the spec: \<^verbatim>\<open>merge_hash\<close> is not among the sources. Section 4.2 of the
  specification, on the store: the result of merging two mappings is a new mapping,
  and the two arguments are not written to. The new object starts as a copy of the
  items of \<open>x\<close>; each item of \<open>y\<close> is then stored into it, merged with the value that is
  there when both are dicts (the result of that merge is a new object again) and as
  it is otherwise. A value that is not merged is shared with the argument it comes
  from. The first argument bounds the depth of the recursion, as for \<open>deepcopy\<close>.
\<close>

definition copy_dict :: "nat \<Rightarrow> store \<Rightarrow> nat \<times> store" where
  "copy_dict x s =
     (next_free s, s\<lparr>cells := (cells s)(next_free s := cells s x), next_free := Suc (next_free s)\<rparr>)"

definition merge_pair :: "store \<Rightarrow> nat \<Rightarrow> string \<Rightarrow> hval \<Rightarrow> (nat \<times> nat) option" where
  "merge_pair s r key y_value =
     (case map_of (cells s r) key of
        Some (HRef a) \<Rightarrow> (case y_value of HRef b \<Rightarrow> Some (a, b) | _ \<Rightarrow> None)
      | _ \<Rightarrow> None)"

fun h_merge :: "nat \<Rightarrow> nat \<Rightarrow> nat \<Rightarrow> store \<Rightarrow> (nat \<times> store) option"
  and h_merge_items :: "nat \<Rightarrow> (string \<times> hval) list \<Rightarrow> nat \<Rightarrow> store \<Rightarrow> store option" where
  "h_merge 0 x y s = None"
| "h_merge (Suc n) x y s =
     (case h_merge_items n (cells s y) (fst (copy_dict x s)) (snd (copy_dict x s)) of
        None \<Rightarrow> None
      | Some s' \<Rightarrow> Some (fst (copy_dict x s), s'))"
| "h_merge_items n [] r s = Some s"
| "h_merge_items n ((key, y_value) # items) r s =
     (case merge_pair s r key y_value of
        None \<Rightarrow> h_merge_items n items r (setitem r key y_value s)
      | Some ab \<Rightarrow>
         (case h_merge n (fst ab) (snd ab) s of
            None \<Rightarrow> None
          | Some m \<Rightarrow> h_merge_items n items r (setitem r key (HRef (fst m)) (snd m))))"

text \<open>
  The loading loop (lines 141 to 164) for the files that pass the extension filter, each
  given by the address of the dict that the loader returned for it: the pre-seeding
  loop over the items of the loaded dict, then
  \<^verbatim>\<open>hostvars_to_update = merge_hash(hostvars_to_update, cur_file_vars)\<close>, which binds the
  name to the object that \<^verbatim>\<open>merge_hash\<close> returns. The result is the address the name is
  bound to after the loop, and the store.
\<close>

fun h_load_files :: "nat \<Rightarrow> nat \<Rightarrow> nat list \<Rightarrow> nat \<Rightarrow> nat \<Rightarrow> store \<Rightarrow> (nat \<times> store) option" where
  "h_load_files n tv [] hv orig s = Some (hv, s)"
| "h_load_files n tv (cur_file_vars # rest) hv orig s =
     (case h_preseed n tv (map fst (cells s cur_file_vars)) hv orig s of
        None \<Rightarrow> None
      | Some s1 \<Rightarrow>
         (case h_merge n hv cur_file_vars s1 of
            None \<Rightarrow> None
          | Some r \<Rightarrow> h_load_files n tv rest (fst r) orig (snd r)))"

text \<open>
  Lines 166 to 168: the keys of the target that are keys of the extra-vars are collected,
  then each is assigned the value that the extra-vars hold, the object itself.
\<close>

definition h_protect :: "nat \<Rightarrow> nat \<Rightarrow> store \<Rightarrow> store" where
  "h_protect ev hv s =
     fold (\<lambda>unmergable s'. setitem hv unmergable (the (map_of (cells s' ev) unmergable)) s')
       (filter (\<lambda>k. map_of (cells s ev) k \<noteq> None) (map fst (cells s hv))) s"

text \<open>
  The statements of \<^verbatim>\<open>run\<close> that create or update a dict, in the order of the source:
  \<^verbatim>\<open>hostvars_to_update = {}\<close> (line 124); when there are files,
  \<^verbatim>\<open>hostvars_to_update_files_orig = {}\<close> (line 140), the loading loop and the loop over the
  keys of the extra-vars; when there are literals, their application. \<open>loaded_files\<close>
  is \<open>None\<close> when the task has no \<^verbatim>\<open>files\<close>, and otherwise the dicts loaded, in order;
  \<open>raised\<close> says that the loading loop then stopped with an exception (the loader
  failed, or a loaded value was no dict), in which case nothing more is executed; \<open>lits\<close>
  is \<open>None\<close> when the task has no \<^verbatim>\<open>literals\<close>, and otherwise the paths and values as the
  templar returned them. A run that raises in the loop over the literals has executed
  the statements of the run with the literals before the one that raised, and a
  loading loop that does not end has, after any number of passes, executed the
  statements of the run that loads that many files and then stops. The result is the
  address of \<^verbatim>\<open>hostvars_to_update\<close> at the end, and the store.
\<close>

definition h_literals_phase ::
  "nat \<Rightarrow> nat \<Rightarrow> nat \<Rightarrow> (string \<times> hval) list option \<Rightarrow> nat \<Rightarrow> store \<Rightarrow> (nat \<times> store) option" where
  "h_literals_phase n tv ev lits hv s =
     (case lits of
        None \<Rightarrow> Some (hv, s)
      | Some items \<Rightarrow>
         (case h_apply_literals n tv ev items hv s of None \<Rightarrow> None | Some s' \<Rightarrow> Some (hv, s')))"

definition h_run ::
  "nat \<Rightarrow> nat \<Rightarrow> nat \<Rightarrow> nat list option \<Rightarrow> bool \<Rightarrow> (string \<times> hval) list option \<Rightarrow> store \<Rightarrow>
     (nat \<times> store) option" where
  "h_run n tv ev loaded_files raised lits s =
     (let hv = fst (new_dict s); s0 = snd (new_dict s) in
      case loaded_files of
        None \<Rightarrow> h_literals_phase n tv ev lits hv s0
      | Some loaded \<Rightarrow>
         (let orig = fst (new_dict s0); s1 = snd (new_dict s0) in
          case h_load_files n tv loaded hv orig s1 of
            None \<Rightarrow> None
          | Some r \<Rightarrow>
             if raised then Some r
             else h_literals_phase n tv ev lits (fst r) (h_protect ev (fst r) (snd r))))"

text \<open>
  The tree that a value stands for in a store, read to a bounded depth, and a list of
  addresses whose objects are allocated and hold addresses of the list only.
\<close>

fun tree_of :: "nat \<Rightarrow> store \<Rightarrow> hval \<Rightarrow> pyval option"
  and trees_of :: "nat \<Rightarrow> store \<Rightarrow> hval list \<Rightarrow> pyval list option"
  and items_of :: "nat \<Rightarrow> store \<Rightarrow> (string \<times> hval) list \<Rightarrow> pydict option" where
  "tree_of 0 s v = None"
| "tree_of (Suc n) s HNone = Some PNone"
| "tree_of (Suc n) s (HBool b) = Some (PBool b)"
| "tree_of (Suc n) s (HInt i) = Some (PInt i)"
| "tree_of (Suc n) s (HStr x) = Some (PStr x)"
| "tree_of (Suc n) s (HList vs) = map_option PList (trees_of n s vs)"
| "tree_of (Suc n) s (HRef a) = map_option PDict (items_of n s (cells s a))"
| "trees_of n s [] = Some []"
| "trees_of n s (v # vs) =
     (case tree_of n s v of
        None \<Rightarrow> None
      | Some t \<Rightarrow> (case trees_of n s vs of None \<Rightarrow> None | Some ts \<Rightarrow> Some (t # ts)))"
| "items_of n s [] = Some []"
| "items_of n s ((key, v) # items) =
     (case tree_of n s v of
        None \<Rightarrow> None
      | Some t \<Rightarrow> (case items_of n s items of None \<Rightarrow> None | Some ts \<Rightarrow> Some ((key, t) # ts)))"

definition closed_objects :: "store \<Rightarrow> nat list \<Rightarrow> bool" where
  "closed_objects s as =
     list_all (\<lambda>a. a < next_free s \<and> list_all (\<lambda>p. refs (snd p) \<subseteq> set as) (cells s a)) as"

text \<open>
  The invariants of the run. While the literals are applied: the owned objects hold
  owned addresses only, the values of the target's root that are not under a key of
  the extra-vars hold owned addresses only, and the extra-vars are neither the target
  nor owned. While the files are loaded: the same with no key set aside, and the
  snapshot is neither the target nor owned.
\<close>

definition target_inv :: "store \<Rightarrow> nat \<Rightarrow> nat \<Rightarrow> nat set \<Rightarrow> bool" where
  "target_inv s hv ev own =
     (owned_closed s own \<and> root_ok s hv (fst ` set (cells s ev)) own \<and>
      ev < next_free s \<and> ev \<noteq> hv \<and> ev \<notin> own)"

definition files_inv :: "store \<Rightarrow> nat \<Rightarrow> nat \<Rightarrow> nat set \<Rightarrow> bool" where
  "files_inv s hv orig own =
     (owned_closed s own \<and> root_ok s hv {} own \<and> orig < next_free s \<and> orig \<notin> own \<and> orig \<noteq> hv)"

definition region_closed :: "nat \<Rightarrow> store \<Rightarrow> bool" where
  "region_closed lo s =
     (\<forall>a. lo \<le> a \<longrightarrow> a < next_free s \<longrightarrow>
        (\<forall>p \<in> set (cells s a). refs (snd p) \<subseteq> {lo..<next_free s}))"

text \<open>
  An example store: \<^verbatim>\<open>task_vars\<close> is \<open>{a: {x: 1}}\<close> at the addresses 0 and 1, the
  extra-vars are empty at 2, the target is empty at 3 and the snapshot empty at 4.
\<close>

definition baseline_store :: store where
  "baseline_store =
     \<lparr>cells = (\<lambda>a. [])(0 := [(''a'', HRef 1)], 1 := [(''x'', HInt 1)]),
      next_free = 5\<rparr>"

text \<open>
  A larger example store: \<^verbatim>\<open>task_vars\<close> is \<open>{ansible_version: {major: 2, minor: 16}, a: {x: 1}}\<close>
  at the addresses 0, 1 and 2, the extra-vars are \<open>{p: {q: 0}}\<close> at 3 and 4, and the
  loader has returned \<open>{a: {y: 2}, p: {q: 9}}\<close> at 5, 6 and 7 and \<open>{b: 7}\<close> at 8. The world
  \<open>merge_world\<close> gives the same trees as values: the two files of the directory \<open>d1\<close>
  load to the two mappings, and the extra-vars pin \<open>p\<close>.
\<close>

definition run_store :: store where
  "run_store =
     \<lparr>cells = (\<lambda>a. [])
        (0 := [(''ansible_version'', HRef 2), (''a'', HRef 1)],
         1 := [(''x'', HInt 1)],
         2 := [(''major'', HInt 2), (''minor'', HInt 16)],
         3 := [(''p'', HRef 4)],
         4 := [(''q'', HInt 0)],
         5 := [(''a'', HRef 6), (''p'', HRef 7)],
         6 := [(''y'', HInt 2)],
         7 := [(''q'', HInt 9)],
         8 := [(''b'', HInt 7)]),
      next_free = 9\<rparr>"

definition merge_world :: world where
  "merge_world =
     d1_world\<lparr>load_from_file :=
                (\<lambda>p t. if p = ''d1/a.yml''
                       then Some (PDict [(''a'', PDict [(''y'', PInt 2)]), (''p'', PDict [(''q'', PInt 9)])])
                       else Some (PDict [(''b'', PInt 7)])),
              extra_vars := [(''p'', PDict [(''q'', PInt 0)])]\<rparr>"

section \<open>Properties of the deep merge\<close>

lemma map_of_merge_base:
  "map_of (merge_base x y) k =
     (case map_of x k of
        None \<Rightarrow> None
      | Some a \<Rightarrow> (case map_of y k of None \<Rightarrow> Some a | Some b \<Rightarrow> Some (merge a b)))"
  by (induction x) (auto split: option.splits)

lemma map_of_overlay_only:
  "map_of (filter (\<lambda>(k, w). map_of x k = None) y) k =
     (if map_of x k = None then map_of y k else None)"
  by (induction y) auto

lemma map_of_merge_hash:
  "map_of (merge_hash x y) k =
     (case map_of x k of
        None \<Rightarrow> map_of y k
      | Some a \<Rightarrow> (case map_of y k of None \<Rightarrow> Some a | Some b \<Rightarrow> Some (merge a b)))"
  by (simp add: merge_hash_def map_add_def map_of_merge_base map_of_overlay_only
      split: option.splits)

lemma merge_base_empty: "merge_base x [] = x"
  by (induction x) auto

lemma merge_not_both_dicts: "\<not> (is_dict X \<and> is_dict Y) \<Longrightarrow> merge X Y = Y"
  by (cases X; cases Y) (simp_all add: is_dict_def)

text \<open>
  C5. The merge of two mappings \<open>A\<close> and \<open>B\<close> is the mapping \<open>merge_hash A B\<close>, in which
  a key of \<open>A\<close> that \<open>B\<close> lacks keeps its value, a key of \<open>B\<close> that \<open>A\<close> lacks has the
  value of \<open>B\<close>, a shared key has the recursive merge of the two values, and no other
  key is present; merging with the empty mapping on either side gives the other side;
  and when one of the two values is not a mapping the merge is the overlay \<open>Y\<close>.
\<close>

theorem merge_contract:
  "merge (PDict A) (PDict B) = PDict (merge_hash A B) \<and>
   map_of (merge_hash A B) k =
     (case map_of A k of
        None \<Rightarrow> map_of B k
      | Some a \<Rightarrow> (case map_of B k of None \<Rightarrow> Some a | Some b \<Rightarrow> Some (merge a b))) \<and>
   merge (PDict A) (PDict []) = PDict A \<and>
   merge (PDict []) (PDict B) = PDict B \<and>
   (\<not> (is_dict X \<and> is_dict Y) \<longrightarrow> merge X Y = Y)"
  using map_of_merge_hash [of A B k] merge_not_both_dicts [of X Y]
  by (simp add: merge_hash_def merge_base_empty)

theorem merge_contract_witness:
  "merge (PDict [(''a'', PDict [(''x'', PInt 1)]), (''c'', PStr ''keep'')])
         (PDict [(''a'', PDict [(''y'', PInt 2)]), (''b'', PInt 3)])
     = PDict [(''a'', PDict [(''x'', PInt 1), (''y'', PInt 2)]), (''c'', PStr ''keep''),
              (''b'', PInt 3)] \<and>
   map_of (merge_hash [(''a'', PDict [(''x'', PInt 1)]), (''c'', PStr ''keep'')]
                      [(''a'', PDict [(''y'', PInt 2)]), (''b'', PInt 3)]) ''a''
     = Some (PDict [(''x'', PInt 1), (''y'', PInt 2)]) \<and>
   \<not> (is_dict (PList [PInt 1]) \<and> is_dict (PDict [(''a'', PInt 1)])) \<and>
   merge (PList [PInt 1]) (PDict [(''a'', PInt 1)]) = PDict [(''a'', PInt 1)]"
  using merge_contract [of "[(''a'', PDict [(''x'', PInt 1)]), (''c'', PStr ''keep'')]"
      "[(''a'', PDict [(''y'', PInt 2)]), (''b'', PInt 3)]" "''a''"
      "PList [PInt 1]" "PDict [(''a'', PInt 1)]"]
  by (simp add: is_dict_def merge_hash_def)

section \<open>Properties of the literal assignments\<close>

lemma split_dot_nonempty: "split_dot s \<noteq> []"
  by (induction s) (auto split: list.splits)

lemma py_eq_refl: "wf_val v \<Longrightarrow> py_eq v v"
proof (induction v)
  case (PList xs)
  have "wf_list ys \<Longrightarrow> set ys \<subseteq> set xs \<Longrightarrow> py_eq_list ys ys" for ys
    by (induction ys) (auto simp: PList.IH)
  with PList.prems show ?case by simp
next
  case (PDict d)
  have "wf_items a \<Longrightarrow> set a \<subseteq> set d \<Longrightarrow> py_eq_items a d" for a
  proof (induction a)
    case Nil
    show ?case by simp
  next
    case (Cons p a)
    obtain k v where p: "p = (k, v)" by (cases p)
    from Cons.prems p have in_d: "(k, v) \<in> set d" and wf: "wf_val v" by auto
    from PDict.prems in_d have "map_of d k = Some v" by simp
    moreover from PDict.IH in_d wf have "py_eq v v" by fastforce
    ultimately show ?case using Cons p by simp
  qed
  with PDict.prems show ?case by simp
qed simp_all

lemma get_path_empty: "get_path keys [] = None"
  by (induction keys "[] :: pydict" rule: get_path.induct) simp_all

lemma set_path_changed:
  "keys \<noteq> [] \<Longrightarrow>
   snd (set_path keys v cur) =
     (\<not> py_eq (case get_path keys cur of None \<Rightarrow> PNone | Some u \<Rightarrow> u) v)"
proof (induction keys v cur rule: set_path.induct)
  case (3 key k2 keys v cur)
  then show ?case
    by (cases "map_of cur key") (auto simp: Let_def get_path_empty split: pyval.splits)
qed simp_all

lemma update_same: "AList.update k v (AList.update k v d) = AList.update k v d"
  by (induction d) auto

lemma set_path_again:
  "keys \<noteq> [] \<Longrightarrow>
   fst (set_path keys v (fst (set_path keys v cur))) = fst (set_path keys v cur)"
proof (induction keys v cur rule: set_path.induct)
  case (3 key k2 keys v cur)
  then show ?case
    by (simp add: Let_def update_same AList.update_conv')
qed (simp_all add: update_same)

lemma get_path_set_path:
  "keys \<noteq> [] \<Longrightarrow> get_path keys (fst (set_path keys v cur)) = Some v"
proof (induction keys v cur rule: set_path.induct)
  case (3 key k2 keys v cur)
  then show ?case
    by (simp add: Let_def AList.update_conv')
qed (simp_all add: AList.update_conv')

text \<open>
  C7, as the claim states it, fails: the key \<open>a\<close> is absent from the empty mapping, the
  assignment of \<^verbatim>\<open>None\<close> to the path \<open>a\<close> adds it, and \<^verbatim>\<open>changed\<close> is not set, because
  \<^verbatim>\<open>current.get\<close> reads an absent key as \<^verbatim>\<open>None\<close>.
\<close>

theorem literal_changed_counterexample:
  "map_of ([] :: pydict) ''a'' = None \<and>
   set_path (split_dot ''a'') PNone [] = ([(''a'', PNone)], False)"
  by simp

text \<open>
  C7, amended. Assigning 5 to the path \<open>a.b.c\<close> in the empty mapping gives
  \<open>{a: {b: {c: 5}}}\<close> and sets \<^verbatim>\<open>changed\<close>; the same assignment on the result gives
  the same tree and does not set it. For every path, value and mapping, \<^verbatim>\<open>changed\<close> is
  set exactly when the value found at the path before the assignment, read as \<^verbatim>\<open>None\<close>
  when there is none, is not equal to the new value in Python's sense; and assigning a
  well-formed value a second time returns the same tree and does not set \<^verbatim>\<open>changed\<close>.
\<close>

theorem literal_application:
  "set_path (split_dot ''a.b.c'') (PInt 5) [] =
     ([(''a'', PDict [(''b'', PDict [(''c'', PInt 5)])])], True) \<and>
   set_path (split_dot ''a.b.c'') (PInt 5) [(''a'', PDict [(''b'', PDict [(''c'', PInt 5)])])] =
     ([(''a'', PDict [(''b'', PDict [(''c'', PInt 5)])])], False) \<and>
   snd (set_path (split_dot path) v cur) =
     (\<not> py_eq (case get_path (split_dot path) cur of None \<Rightarrow> PNone | Some u \<Rightarrow> u) v) \<and>
   (wf_val v \<longrightarrow>
      set_path (split_dot path) v (fst (set_path (split_dot path) v cur)) =
        (fst (set_path (split_dot path) v cur), False))"
proof -
  have ne: "split_dot path \<noteq> []" by (rule split_dot_nonempty)
  have "wf_val v \<Longrightarrow>
      set_path (split_dot path) v (fst (set_path (split_dot path) v cur)) =
        (fst (set_path (split_dot path) v cur), False)"
    using set_path_again [OF ne, of v cur] get_path_set_path [OF ne, of v cur]
      set_path_changed [OF ne, of v "fst (set_path (split_dot path) v cur)"] py_eq_refl [of v]
    by (simp add: prod_eq_iff)
  then show ?thesis
    using set_path_changed [OF ne, of v cur] by simp
qed

theorem literal_application_witness:
  "wf_val (PDict [(''k'', PInt 1)]) \<and>
   set_path (split_dot ''x.y'') (PDict [(''k'', PInt 1)])
      (fst (set_path (split_dot ''x.y'') (PDict [(''k'', PInt 1)]) [(''x'', PInt 0)])) =
     ([(''x'', PDict [(''y'', PDict [(''k'', PInt 1)])])], False)"
  using literal_application [of "''x.y''" "PDict [(''k'', PInt 1)]" "[(''x'', PInt 0)]"]
  by simp

section \<open>Properties of the structural diff\<close>

lemma deep_diff_keys: "deep_diff d1 d2 path = concat (map (diff_key d1 d2 path) (key_union d1 d2))"
  unfolding diff_key_def by (subst deep_diff.simps) (rule refl)

lemma map_of_delete: "map_of (AList.delete k d) key = (if key = k then None else map_of d key)"
  by (induction d) auto

lemma distinct_key_union: "distinct (key_union d1 d2)"
  by (auto simp: key_union_def)

lemma set_key_union: "set (key_union d1 d2) = fst ` set d1 \<union> fst ` set d2"
  by (auto simp: key_union_def)

lemma map_of_Some_key: "map_of d k = Some v \<Longrightarrow> k \<in> fst ` set d"
  by (force dest: map_of_SomeD)

lemma deep_diff_by_keys:
  "deep_diff_by keys_of d1 d2 path =
     concat (map (\<lambda>key. diff_key_by keys_of path key (map_of d1 key) (map_of d2 key)) (keys_of d1 d2))"
  unfolding diff_key_by_def by (subst deep_diff_by.simps) (rule refl)

lemma deep_diff_by_key_union: "deep_diff_by key_union d1 d2 path = deep_diff d1 d2 path"
proof (induction "size (PDict d1)" arbitrary: d1 d2 path rule: less_induct)
  case less
  have "diff_key_by key_union path key (map_of d1 key) (map_of d2 key) = diff_key d1 d2 path key" for key
    using less [OF map_of_size [of d1 key]]
    by (auto simp: diff_key_by_def diff_key_def split: option.splits pyval.splits)
  then show ?case
    by (simp add: deep_diff_by_keys deep_diff_keys)
qed

lemma mset_concat_map: "mset (concat (map f xs)) = (\<Sum>x\<in>#mset xs. mset (f x))"
  by (induction xs) simp_all

lemma mset_key_union: "mset (key_union d1 d2) = mset_set (fst ` set d1 \<union> fst ` set d2)"
  using mset_set_set [OF distinct_key_union [of d1 d2]] by (simp add: set_key_union)

lemma mset_deep_diff_by:
  assumes "\<forall>d1 d2. mset (keys_of d1 d2) = mset (key_union d1 d2)"
  shows "mset (deep_diff_by keys_of d1 d2 path) =
     (\<Sum>key\<in>#mset_set (fst ` set d1 \<union> fst ` set d2).
         mset (diff_key_by keys_of path key (map_of d1 key) (map_of d2 key)))"
  by (simp add: deep_diff_by_keys mset_concat_map assms mset_key_union)

lemma deep_diff_order_irrelevant:
  assumes "\<forall>d1 d2. mset (keys_of d1 d2) = mset (key_union d1 d2)"
  shows "mset (deep_diff_by keys_of d1 d2 path) = mset (deep_diff d1 d2 path)"
proof (induction "size (PDict d1)" arbitrary: d1 d2 path rule: less_induct)
  case less
  have "mset (diff_key_by keys_of path key (map_of d1 key) (map_of d2 key)) =
        mset (diff_key_by key_union path key (map_of d1 key) (map_of d2 key))" for key
    using less [OF map_of_size [of d1 key]]
    by (auto simp: diff_key_by_def deep_diff_by_key_union split: option.splits pyval.splits)
  then have "mset (deep_diff_by keys_of d1 d2 path) = mset (deep_diff_by key_union d1 d2 path)"
    by (simp add: mset_deep_diff_by assms)
  then show ?case by (simp add: deep_diff_by_key_union)
qed

text \<open>
  The run reads of the diff only whether it is empty, which does not depend on the order
  in which the keys are iterated.
\<close>

lemma deep_diff_length_order_irrelevant:
  assumes "\<forall>d1 d2. mset (keys_of d1 d2) = mset (key_union d1 d2)"
  shows "length (deep_diff_by keys_of d1 d2 path) = length (deep_diff d1 d2 path)"
  using deep_diff_order_irrelevant [OF assms, of d1 d2 path] by (rule mset_eq_length)

lemma keys_update: "fst ` set (AList.update k v d) = insert k (fst ` set d)"
  by (induction d) auto

lemma map_of_update: "map_of (AList.update k v d) key = (if key = k then Some v else map_of d key)"
  by (simp add: update_conv')

lemma keys_delete_set: "fst ` set (AList.delete k d) = fst ` set d - {k}"
  by (induction d) auto

lemma mset_diff_split:
  assumes ord: "\<forall>d1 d2. mset (keys_of d1 d2) = mset (key_union d1 d2)"
    and k: "k \<in> fst ` set d1 \<union> fst ` set d2"
  shows "mset (deep_diff_by keys_of d1 d2 path) =
     mset (diff_key_by keys_of path k (map_of d1 k) (map_of d2 k)) +
     (\<Sum>key\<in>#mset_set ((fst ` set d1 \<union> fst ` set d2) - {k}).
         mset (diff_key_by keys_of path key (map_of d1 key) (map_of d2 key)))"
proof -
  have "finite (fst ` set d1 \<union> fst ` set d2)" by simp
  from mset_set.remove [OF this k] show ?thesis
    by (simp add: mset_deep_diff_by [OF ord])
qed

lemma mset_diff_rest:
  assumes ord: "\<forall>d1 d2. mset (keys_of d1 d2) = mset (key_union d1 d2)"
    and k: "k \<notin> fst ` set d1 \<union> fst ` set d2"
  shows "mset (deep_diff_by keys_of d1 d2 path) =
     (\<Sum>key\<in>#mset_set ((fst ` set d1 \<union> fst ` set d2) - {k}).
         mset (diff_key_by keys_of path key (map_of d1 key) (map_of d2 key)))"
  using k by (simp add: mset_deep_diff_by [OF ord])

lemma sum_rest_cong:
  assumes "\<And>key. key \<noteq> k \<Longrightarrow> f key = g key" and "A - {k} = B - {k}"
  shows "(\<Sum>key\<in>#mset_set (A - {k}). f key) = (\<Sum>key\<in>#mset_set (B - {k}). g key)"
proof -
  have "image_mset f (mset_set (A - {k})) = image_mset g (mset_set (B - {k}))"
    unfolding assms(2)
    by (rule image_mset_cong) (metis assms(1) Diff_iff elem_mset_set empty_iff insertI1 mset_set.infinite set_mset_empty)
  then show ?thesis by simp
qed

lemma py_eq_None: "py_eq PNone v = (v = PNone)"
  by (cases v) simp_all

lemma py_eq_None_right: "py_eq v PNone = (v = PNone)"
  by (cases v) simp_all

lemma diff_added_key_mset:
  assumes ord: "\<forall>d1 d2. mset (keys_of d1 d2) = mset (key_union d1 d2)"
    and "map_of d1 k = None" and "map_of d2 k = Some v"
  shows "mset (deep_diff_by keys_of d1 d2 path) =
           add_mset (new_path path k, PNone, v) (mset (deep_diff_by keys_of d1 (AList.delete k d2) path))"
    and "mset (deep_diff_by keys_of (AList.update k PNone d1) d2 path) =
           (if v = PNone then mset (deep_diff_by keys_of d1 (AList.delete k d2) path)
            else mset (deep_diff_by keys_of d1 d2 path))"
proof -
  from assms(3) have k2: "k \<in> fst ` set d2" by (rule map_of_Some_key)
  from assms(2) have k1: "k \<notin> fst ` set d1" by (simp add: map_of_eq_None_iff)
  let ?rest = "\<Sum>key\<in>#mset_set ((fst ` set d1 \<union> fst ` set d2) - {k}).
         mset (diff_key_by keys_of path key (map_of d1 key) (map_of d2 key))"
  have full: "mset (deep_diff_by keys_of d1 d2 path) = {#(new_path path k, PNone, v)#} + ?rest"
    using mset_diff_split [OF ord, of k d1 d2 path] k2 assms(2,3) by (simp add: diff_key_by_def)
  have "mset (deep_diff_by keys_of d1 (AList.delete k d2) path) =
     (\<Sum>key\<in>#mset_set ((fst ` set d1 \<union> fst ` set (AList.delete k d2)) - {k}).
         mset (diff_key_by keys_of path key (map_of d1 key) (map_of (AList.delete k d2) key)))"
    using k1 by (intro mset_diff_rest [OF ord]) (simp add: keys_delete_set)
  also have "\<dots> = ?rest"
    by (rule sum_rest_cong) (auto simp: map_of_delete keys_delete_set)
  finally have without: "mset (deep_diff_by keys_of d1 (AList.delete k d2) path) = ?rest" .
  from full without show "mset (deep_diff_by keys_of d1 d2 path) =
           add_mset (new_path path k, PNone, v) (mset (deep_diff_by keys_of d1 (AList.delete k d2) path))"
    by simp
  have "mset (deep_diff_by keys_of (AList.update k PNone d1) d2 path) =
     mset (diff_key_by keys_of path k (Some PNone) (Some v)) +
     (\<Sum>key\<in>#mset_set ((fst ` set (AList.update k PNone d1) \<union> fst ` set d2) - {k}).
         mset (diff_key_by keys_of path key (map_of (AList.update k PNone d1) key) (map_of d2 key)))"
    using mset_diff_split [OF ord, of k "AList.update k PNone d1" d2 path] assms(3)
    by (simp add: keys_update map_of_update)
  also have "(\<Sum>key\<in>#mset_set ((fst ` set (AList.update k PNone d1) \<union> fst ` set d2) - {k}).
         mset (diff_key_by keys_of path key (map_of (AList.update k PNone d1) key) (map_of d2 key))) = ?rest"
    by (rule sum_rest_cong) (auto simp: map_of_update keys_update)
  finally have "mset (deep_diff_by keys_of (AList.update k PNone d1) d2 path) =
     mset (diff_key_by keys_of path k (Some PNone) (Some v)) + ?rest" .
  moreover have "diff_key_by keys_of path k (Some PNone) (Some v) =
     (if v = PNone then [] else [(new_path path k, PNone, v)])"
    by (simp add: diff_key_by_def py_eq_None)
  ultimately show "mset (deep_diff_by keys_of (AList.update k PNone d1) d2 path) =
           (if v = PNone then mset (deep_diff_by keys_of d1 (AList.delete k d2) path)
            else mset (deep_diff_by keys_of d1 d2 path))"
    using full without by simp
qed

lemma diff_removed_key_mset:
  assumes ord: "\<forall>d1 d2. mset (keys_of d1 d2) = mset (key_union d1 d2)"
    and "map_of d1 k = Some v" and "map_of d2 k = None"
  shows "mset (deep_diff_by keys_of d1 d2 path) =
           add_mset (new_path path k, v, PNone) (mset (deep_diff_by keys_of (AList.delete k d1) d2 path))"
    and "mset (deep_diff_by keys_of d1 (AList.update k PNone d2) path) =
           (if v = PNone then mset (deep_diff_by keys_of (AList.delete k d1) d2 path)
            else mset (deep_diff_by keys_of d1 d2 path))"
proof -
  from assms(2) have k1: "k \<in> fst ` set d1" by (rule map_of_Some_key)
  from assms(3) have k2: "k \<notin> fst ` set d2" by (simp add: map_of_eq_None_iff)
  let ?rest = "\<Sum>key\<in>#mset_set ((fst ` set d1 \<union> fst ` set d2) - {k}).
         mset (diff_key_by keys_of path key (map_of d1 key) (map_of d2 key))"
  have full: "mset (deep_diff_by keys_of d1 d2 path) = {#(new_path path k, v, PNone)#} + ?rest"
    using mset_diff_split [OF ord, of k d1 d2 path] k1 assms(2,3) by (simp add: diff_key_by_def)
  have "mset (deep_diff_by keys_of (AList.delete k d1) d2 path) =
     (\<Sum>key\<in>#mset_set ((fst ` set (AList.delete k d1) \<union> fst ` set d2) - {k}).
         mset (diff_key_by keys_of path key (map_of (AList.delete k d1) key) (map_of d2 key)))"
    using k2 by (intro mset_diff_rest [OF ord]) (simp add: keys_delete_set)
  also have "\<dots> = ?rest"
    by (rule sum_rest_cong) (auto simp: map_of_delete keys_delete_set)
  finally have without: "mset (deep_diff_by keys_of (AList.delete k d1) d2 path) = ?rest" .
  from full without show "mset (deep_diff_by keys_of d1 d2 path) =
           add_mset (new_path path k, v, PNone) (mset (deep_diff_by keys_of (AList.delete k d1) d2 path))"
    by simp
  have "mset (deep_diff_by keys_of d1 (AList.update k PNone d2) path) =
     mset (diff_key_by keys_of path k (Some v) (Some PNone)) +
     (\<Sum>key\<in>#mset_set ((fst ` set d1 \<union> fst ` set (AList.update k PNone d2)) - {k}).
         mset (diff_key_by keys_of path key (map_of d1 key) (map_of (AList.update k PNone d2) key)))"
    using mset_diff_split [OF ord, of k d1 "AList.update k PNone d2" path] assms(2)
    by (simp add: keys_update map_of_update)
  also have "(\<Sum>key\<in>#mset_set ((fst ` set d1 \<union> fst ` set (AList.update k PNone d2)) - {k}).
         mset (diff_key_by keys_of path key (map_of d1 key) (map_of (AList.update k PNone d2) key))) = ?rest"
    by (rule sum_rest_cong) (auto simp: map_of_update keys_update)
  finally have "mset (deep_diff_by keys_of d1 (AList.update k PNone d2) path) =
     mset (diff_key_by keys_of path k (Some v) (Some PNone)) + ?rest" .
  moreover have "diff_key_by keys_of path k (Some v) (Some PNone) =
     (if v = PNone then [] else [(new_path path k, v, PNone)])"
    by (cases v) (simp_all add: diff_key_by_def)
  ultimately show "mset (deep_diff_by keys_of d1 (AList.update k PNone d2) path) =
           (if v = PNone then mset (deep_diff_by keys_of (AList.delete k d1) d2 path)
            else mset (deep_diff_by keys_of d1 d2 path))"
    using full without by simp
qed

text \<open>
  C4, as the claim states it, fails: the side that lacks the key is written \<^verbatim>\<open>None\<close>, so
  a key that the first mapping lacks and a key that it sets to \<^verbatim>\<open>None\<close> give the same
  entry.
\<close>

theorem diff_absent_is_null_counterexample:
  "deep_diff [] [(''a'', PInt 1)] [] = [(''a'', PNone, PInt 1)] \<and>
   deep_diff [(''a'', PNone)] [(''a'', PInt 1)] [] = [(''a'', PNone, PInt 1)]"
  by (simp add: deep_diff_keys key_union_def diff_key_def new_path_def)

text \<open>
  C4, amended. Let the keys be iterated in any order. For a key that only one of the two
  mappings has, \<^verbatim>\<open>deep_diff\<close> records exactly one entry: the entries of the diff are the
  entries of the diff of the two mappings without that key, and one more. That entry
  holds the dotted path of the key, the value of the side that has the key, and \<^verbatim>\<open>None\<close>,
  the value of an explicit null, for the side that lacks it. So when the value on the
  side that has the key is not null, the diff has the same entries as when the other
  side holds the key with an explicit null; when that value is null, the diff with the
  key absent has the entry with \<^verbatim>\<open>None\<close> on both sides and the diff with the explicit null
  has no entry for the key. The order of iteration does not change the entries.
\<close>

theorem diff_one_sided_key:
  "(\<forall>d1 d2. mset (keys_of d1 d2) = mset (key_union d1 d2)) \<longrightarrow>
     mset (deep_diff_by keys_of d1 d2 path) = mset (deep_diff d1 d2 path) \<and>
     (map_of d1 k = None \<and> map_of d2 k = Some v \<longrightarrow>
        mset (deep_diff_by keys_of d1 d2 path) =
          add_mset (new_path path k, PNone, v) (mset (deep_diff_by keys_of d1 (AList.delete k d2) path)) \<and>
        mset (deep_diff_by keys_of (AList.update k PNone d1) d2 path) =
          (if v = PNone then mset (deep_diff_by keys_of d1 (AList.delete k d2) path)
           else mset (deep_diff_by keys_of d1 d2 path))) \<and>
     (map_of d1 k = Some v \<and> map_of d2 k = None \<longrightarrow>
        mset (deep_diff_by keys_of d1 d2 path) =
          add_mset (new_path path k, v, PNone) (mset (deep_diff_by keys_of (AList.delete k d1) d2 path)) \<and>
        mset (deep_diff_by keys_of d1 (AList.update k PNone d2) path) =
          (if v = PNone then mset (deep_diff_by keys_of (AList.delete k d1) d2 path)
           else mset (deep_diff_by keys_of d1 d2 path)))"
  using deep_diff_order_irrelevant [of keys_of d1 d2 path]
    diff_added_key_mset [of keys_of d1 k d2 v path] diff_removed_key_mset [of keys_of d1 k v d2 path]
  by blast

theorem diff_one_sided_key_witness:
  "(\<forall>d1 d2. mset (rev (key_union d1 d2)) = mset (key_union d1 d2)) \<and>
   map_of [(''a'', PInt 1)] ''b'' = None \<and>
   map_of [(''a'', PInt 2), (''b'', PNone)] ''b'' = Some PNone \<and>
   deep_diff_by (\<lambda>d1 d2. rev (key_union d1 d2)) [(''a'', PInt 1)] [(''a'', PInt 2), (''b'', PNone)] ''p'' =
     [(''p.b'', PNone, PNone), (''p.a'', PInt 1, PInt 2)] \<and>
   deep_diff [(''a'', PInt 1)] [(''a'', PInt 2), (''b'', PNone)] ''p'' =
     [(''p.a'', PInt 1, PInt 2), (''p.b'', PNone, PNone)] \<and>
   mset (deep_diff_by (\<lambda>d1 d2. rev (key_union d1 d2)) [(''a'', PInt 1)] [(''a'', PInt 2), (''b'', PNone)] ''p'') =
     mset (deep_diff [(''a'', PInt 1)] [(''a'', PInt 2), (''b'', PNone)] ''p'') \<and>
   mset (deep_diff_by (\<lambda>d1 d2. rev (key_union d1 d2)) [(''a'', PInt 1)] [(''a'', PInt 2), (''b'', PNone)] ''p'') =
     add_mset (''p.b'', PNone, PNone)
       (mset (deep_diff_by (\<lambda>d1 d2. rev (key_union d1 d2)) [(''a'', PInt 1)] [(''a'', PInt 2)] ''p'')) \<and>
   mset (deep_diff_by (\<lambda>d1 d2. rev (key_union d1 d2)) [(''a'', PInt 1), (''b'', PNone)]
           [(''a'', PInt 2), (''b'', PNone)] ''p'') =
     mset (deep_diff_by (\<lambda>d1 d2. rev (key_union d1 d2)) [(''a'', PInt 1)] [(''a'', PInt 2)] ''p'') \<and>
   map_of [(''a'', PInt 1), (''c'', PDict [])] ''c'' = Some (PDict []) \<and>
   map_of [(''a'', PInt 2)] ''c'' = None \<and>
   deep_diff_by (\<lambda>d1 d2. rev (key_union d1 d2)) [(''a'', PInt 1), (''c'', PDict [])] [(''a'', PInt 2)] ''p'' =
     [(''p.c'', PDict [], PNone), (''p.a'', PInt 1, PInt 2)] \<and>
   mset (deep_diff_by (\<lambda>d1 d2. rev (key_union d1 d2)) [(''a'', PInt 1), (''c'', PDict [])] [(''a'', PInt 2)] ''p'') =
     mset (deep_diff [(''a'', PInt 1), (''c'', PDict [])] [(''a'', PInt 2)] ''p'') \<and>
   mset (deep_diff_by (\<lambda>d1 d2. rev (key_union d1 d2)) [(''a'', PInt 1), (''c'', PDict [])] [(''a'', PInt 2)] ''p'') =
     add_mset (''p.c'', PDict [], PNone)
       (mset (deep_diff_by (\<lambda>d1 d2. rev (key_union d1 d2)) [(''a'', PInt 1)] [(''a'', PInt 2)] ''p'')) \<and>
   mset (deep_diff_by (\<lambda>d1 d2. rev (key_union d1 d2)) [(''a'', PInt 1), (''c'', PDict [])]
           [(''a'', PInt 2), (''c'', PNone)] ''p'') =
     mset (deep_diff_by (\<lambda>d1 d2. rev (key_union d1 d2)) [(''a'', PInt 1), (''c'', PDict [])] [(''a'', PInt 2)] ''p'')"
proof -
  have "deep_diff_by (\<lambda>d1 d2. rev (key_union d1 d2)) [(''a'', PInt 1)]
          [(''a'', PInt 2), (''b'', PNone)] ''p'' =
        [(''p.b'', PNone, PNone), (''p.a'', PInt 1, PInt 2)]"
    and "deep_diff [(''a'', PInt 1)] [(''a'', PInt 2), (''b'', PNone)] ''p'' =
        [(''p.a'', PInt 1, PInt 2), (''p.b'', PNone, PNone)]"
    and "deep_diff_by (\<lambda>d1 d2. rev (key_union d1 d2)) [(''a'', PInt 1), (''c'', PDict [])]
          [(''a'', PInt 2)] ''p'' =
        [(''p.c'', PDict [], PNone), (''p.a'', PInt 1, PInt 2)]"
    by (simp_all add: deep_diff_by_keys diff_key_by_def deep_diff_keys diff_key_def key_union_def
        new_path_def)
  moreover note diff_one_sided_key [of "\<lambda>d1 d2. rev (key_union d1 d2)" "[(''a'', PInt 1)]"
        "[(''a'', PInt 2), (''b'', PNone)]" "''p''" "''b''" PNone]
    diff_one_sided_key [of "\<lambda>d1 d2. rev (key_union d1 d2)" "[(''a'', PInt 1), (''c'', PDict [])]"
        "[(''a'', PInt 2)]" "''p''" "''c''" "PDict []"]
  ultimately show ?thesis by (auto simp: new_path_def)
qed

section \<open>The empty path\<close>

lemma apply_literal_not_invalid_path:
  "apply_literal w task_vars item st \<noteq> Inl InvalidPathError"
  by (auto simp: apply_literal_def Let_def split_dot_nonempty split: pyval.splits option.splits)

lemma apply_literals_not_invalid_path:
  "apply_literals w task_vars items st \<noteq> Inl InvalidPathError"
  by (induction items arbitrary: st) (auto simp: apply_literal_not_invalid_path split: sum.splits)

text \<open>
  C2 does not hold of the code: \<^verbatim>\<open>''.split('.')\<close> is the list \<^verbatim>\<open>['']\<close>, so the test
  \<^verbatim>\<open>if not keys\<close> never fires. No list of literals fails with \<open>InvalidPathError\<close>,
  and a run whose only literal has the empty path and the value 1 succeeds with
  \<^verbatim>\<open>changed\<close> set and the value stored under the empty key.
\<close>

theorem empty_path_is_applied:
  "literals_phase w args task_vars st \<noteq> Inl InvalidPathError \<and>
   split_dot '''' = [''''] \<and>
   run \<lparr>isfile = (\<lambda>p. False), isdir = (\<lambda>p. False), listdir = (\<lambda>p. []),
        load_from_file = (\<lambda>p t. None), template = (\<lambda>v. v), extra_vars = []\<rparr>
       \<lparr>files = None,
        literals = Some (PList [PDict [(''path'', PStr ''''), (''value'', PInt 1)]]),
        ignore_missing_files = None, extensions = None, other_args = []\<rparr>
       [] =
     Some (Inr \<lparr>result_changed = True, ansible_included_var_files = None,
                ansible_facts = [('''', PInt 1)]\<rparr>)"
  by (simp add: literals_phase_def apply_literals_not_invalid_path run_def arg_names_def
      VALID_ARGUMENTS_def files_phase_def initial_state_def apply_literal_def seed_top_def
      finish_def split: option.splits pyval.splits)

section \<open>Properties of the source resolver\<close>

lemma files_of_append: "files_of (files_append source st) = files_of st @ [source]"
  by (cases "files_var st") (simp_all add: files_of_def files_append_def)

lemma files_of_own: "files_of (st\<lparr>files_var := OwnList fs\<rparr>) = fs"
  by (simp add: files_of_def)

lemma append_le_append: "(p @ a \<le> p @ b) = (a \<le> (b :: string))"
  by (induction p) simp_all

lemma insort_prefix:
  "insort (p @ x) (map ((@) p) ys) = map ((@) p) (insort (x :: string) ys)"
  by (induction ys) (simp_all add: append_le_append)

lemma sort_prefix: "sort (map ((@) p) xs) = map ((@) p) (sort (xs :: string list))"
  by (induction xs) (simp_all add: insort_prefix)

lemma path_join_plain:
  "take 1 b \<noteq> ''/'' \<Longrightarrow>
   path_join a b = (if a = [] \<or> last a = CHR ''/'' then a else a @ ''/'') @ b"
  by (simp add: path_join_def)

lemma map_path_join_plain:
  "plain_names names \<Longrightarrow>
   map (path_join a) names = map ((@) (if a = [] \<or> last a = CHR ''/'' then a else a @ ''/'')) names"
  unfolding plain_names_def by (induction names) (simp_all add: path_join_plain del: take_Suc_Cons)

lemma plain_names_filter: "plain_names names \<Longrightarrow> plain_names (filter P names)"
  by (simp add: plain_names_def list_all_iff)

lemma plain_names_sort: "plain_names names \<Longrightarrow> plain_names (sort names)"
  by (simp add: plain_names_def list_all_iff)

lemma dirfiles_by_name:
  assumes "plain_names (listdir w source)"
  shows "dirfiles w source =
     map (path_join source)
       (sort (filter (\<lambda>filename. isfile w (path_join source filename)) (listdir w source)))"
proof -
  let ?names = "filter (\<lambda>filename. isfile w (path_join source filename)) (listdir w source)"
  have "plain_names ?names" using assms by (rule plain_names_filter)
  then show ?thesis
    by (simp add: dirfiles_def map_path_join_plain plain_names_sort sort_prefix)
qed

lemma resolve_sources_files:
  "resolve_sources w ign sources st = Inr st' \<Longrightarrow>
   list_all (\<lambda>source. plain_names (listdir w source)) sources \<Longrightarrow>
   files_of st' = files_of st @ concat (map (expand_source w) sources)"
proof (induction sources arbitrary: st)
  case Nil
  then show ?case by simp
next
  case (Cons source rest)
  then show ?case
    by (auto simp: files_of_append expand_source_def dirfiles_by_name files_of_own
        split: if_splits)
qed

lemma resolve_sources_succeeds:
  "ign \<or> filter (missing w) sources = [] \<Longrightarrow> \<exists>st'. resolve_sources w ign sources st = Inr st'"
  by (induction sources arbitrary: st) (auto simp: missing_def split: if_splits)

lemma resolve_sources_fails:
  "\<not> ign \<Longrightarrow> filter (missing w) sources = m # ms \<Longrightarrow>
   resolve_sources w ign sources st = Inl (SourceNotFoundError m)"
  by (induction sources arbitrary: st) (auto simp: missing_def split: if_splits)

text \<open>
  C8. When no entry is missing, or missing entries are ignored, the first loop ends
  normally and has appended to \<^verbatim>\<open>files\<close>, in the order of the source list, each existing
  file as it is and, for each existing directory, its direct file children joined to
  the directory and sorted by name. The example of the specification is the witness.
\<close>

theorem resolver_order:
  "(ign \<or> filter (missing w) sources = []) \<and>
   list_all (\<lambda>source. plain_names (listdir w source)) sources \<longrightarrow>
   (\<exists>st'. resolve_sources w ign sources st = Inr st' \<and>
      files_of st' = files_of st @ concat (map (expand_source w) sources))"
  using resolve_sources_succeeds [of ign w sources st] resolve_sources_files [of w ign sources st]
  by blast

theorem resolver_order_witness:
  "(False \<or> filter (missing d1_world) [''d1'', ''f1.yml''] = []) \<and>
   list_all (\<lambda>source. plain_names (listdir d1_world source)) [''d1'', ''f1.yml''] \<and>
   (\<exists>st'. resolve_sources d1_world False [''d1'', ''f1.yml''] initial_state = Inr st' \<and>
      files_of st' = [''d1/a.yml'', ''d1/b.yml'', ''f1.yml''])"
  using resolver_order [of False d1_world "[''d1'', ''f1.yml'']" initial_state]
  by (simp add: missing_def plain_names_def expand_source_def d1_world_def path_join_def
      initial_state_def files_of_def)

section \<open>Properties of the loading loop\<close>

lemma preseed_frame:
  "files_var (preseed task_vars ks st) = files_var st \<and>
   included_var_files (preseed task_vars ks st) = included_var_files st \<and>
   changed (preseed task_vars ks st) = changed st"
  by (induction ks arbitrary: st) simp_all

lemma load_file_frame:
  assumes "load_file w task_vars valid_extensions filename st = Inr st'"
  shows "files_var st' = files_var st"
    and "changed st' = changed st"
    and "included_var_files st' =
           included_var_files st @ (if extension_allowed valid_extensions filename then [filename] else [])"
  using assms
  by (auto simp: load_file_def Let_def preseed_frame split: if_splits sum.splits option.splits pyval.splits)

lemma load_files_own:
  "files_var st = OwnList fs \<Longrightarrow> i \<le> length fs \<Longrightarrow>
   load_files w task_vars valid_extensions i st =
     Some (load_all w task_vars valid_extensions (drop i fs) st)"
proof (induction "length fs - i" arbitrary: i st)
  case 0
  then show ?case
    by (subst load_files.simps) (simp add: files_of_def)
next
  case (Suc n)
  then have i: "i < length fs" by simp
  then have drop: "drop i fs = fs ! i # drop (Suc i) fs" by (simp add: Cons_nth_drop_Suc)
  show ?case
  proof (cases "load_file w task_vars valid_extensions (fs ! i) st")
    case (Inl e)
    with i Suc.prems show ?thesis
      by (subst load_files.simps) (simp add: files_of_def drop)
  next
    case (Inr st')
    then have "files_var st' = OwnList fs" using Suc.prems(1) by (simp add: load_file_frame(1))
    moreover have "n = length fs - Suc i" using Suc.hyps(2) by simp
    ultimately have "load_files w task_vars valid_extensions (Suc i) st' =
        Some (load_all w task_vars valid_extensions (drop (Suc i) fs) st')"
      using Suc.hyps(1) i by simp
    with i Suc.prems Inr show ?thesis
      by (subst load_files.simps) (simp add: files_of_def drop)
  qed
qed

lemma load_files_same_list_quiet:
  "files_var st = SameList \<Longrightarrow>
   \<forall>j. i \<le> j \<and> j < length (included_var_files st) \<longrightarrow>
       \<not> extension_allowed valid_extensions (included_var_files st ! j) \<Longrightarrow>
   load_files w task_vars valid_extensions i st = Some (Inr st)"
proof (induction "length (included_var_files st) - i" arbitrary: i)
  case 0
  then show ?case
    by (subst load_files.simps) (simp add: files_of_def)
next
  case (Suc n)
  then have i: "i < length (included_var_files st)" by simp
  with Suc.prems have skip: "load_file w task_vars valid_extensions (included_var_files st ! i) st = Inr st"
    by (simp add: load_file_def)
  have "load_files w task_vars valid_extensions (Suc i) st = Some (Inr st)"
    using Suc.hyps Suc.prems by simp
  with i skip Suc.prems(1) show ?case
    by (subst load_files.simps) (simp add: files_of_def)
qed

lemma load_files_same_list_loaded:
  assumes "load_files w task_vars valid_extensions i st = Some y"
    and "files_var st = SameList"
    and "i \<le> j" and "j < length (included_var_files st)"
    and "extension_allowed valid_extensions (included_var_files st ! j)"
  shows "\<exists>e. y = Inl e"
proof -
  define Q where "Q = (\<lambda>ex i (st :: run_state) (y :: error + run_state).
      files_var st = SameList \<longrightarrow>
      (\<exists>j. i \<le> j \<and> j < length (included_var_files st) \<and>
           extension_allowed ex (included_var_files st ! j)) \<longrightarrow>
      (\<exists>e. y = Inl e))"
  have "Q valid_extensions i st y"
  proof (rule load_files.raw_induct [where P = "\<lambda>w tv ex i st y. Q ex i st y", OF _ assms(1)])
    fix loop w tv ex i st y
    assume IH: "\<And>w tv ex i st y. loop w tv ex i st = Some y \<Longrightarrow> Q ex i st y"
      and body: "(if i < length (files_of st)
          then case load_file w tv ex (files_of st ! i) st of
                 Inl e \<Rightarrow> Some (Inl e)
               | Inr st' \<Rightarrow> loop w tv ex (Suc i) st'
          else Some (Inr st)) = Some y"
    show "Q ex i st y"
      unfolding Q_def
    proof (intro impI)
      assume same: "files_var st = SameList"
        and "\<exists>j. i \<le> j \<and> j < length (included_var_files st) \<and>
                   extension_allowed ex (included_var_files st ! j)"
      then obtain j where j: "i \<le> j" "j < length (included_var_files st)"
          "extension_allowed ex (included_var_files st ! j)" by blast
      then have i: "i < length (files_of st)" using same by (simp add: files_of_def)
      show "\<exists>e. y = Inl e"
      proof (cases "load_file w tv ex (files_of st ! i) st")
        case (Inl e)
        with body i show ?thesis by auto
      next
        case (Inr st')
        with body i have run: "loop w tv ex (Suc i) st' = Some y" by simp
        from Inr have same': "files_var st' = SameList" using same by (simp add: load_file_frame(1))
        from Inr have inc: "included_var_files st' = included_var_files st @
            (if extension_allowed ex (files_of st ! i) then [files_of st ! i] else [])"
          by (rule load_file_frame(3))
        have "\<exists>j'. Suc i \<le> j' \<and> j' < length (included_var_files st') \<and>
                 extension_allowed ex (included_var_files st' ! j')"
        proof (cases "j = i")
          case True
          with j(3) same have ok: "extension_allowed ex (files_of st ! i)"
            by (simp add: files_of_def)
          with inc have "included_var_files st' ! length (included_var_files st) = files_of st ! i"
            by simp
          with ok inc j(2) True show ?thesis
            by (intro exI [of _ "length (included_var_files st)"]) auto
        next
          case False
          with j inc show ?thesis
            by (intro exI [of _ j]) (auto simp: nth_append)
        qed
        with IH [OF run] same' show ?thesis unfolding Q_def by blast
      qed
    qed
  qed
  with assms show ?thesis unfolding Q_def by blast
qed


lemma load_file_never_fails_here:
  "\<exists>st'. load_file yml_world version_vars None filename st = Inr st'"
  by (simp add: load_file_def yml_world_def version_vars_def extension_allowed_def
      trusted_as_template_def subscript_def version_ge_2_19_def py_ge_int_def Let_def)

lemma load_files_no_error:
  assumes "load_files w task_vars valid_extensions i st = Some y"
    and "\<And>filename st. \<exists>st'. load_file w task_vars valid_extensions filename st = Inr st'"
  shows "\<exists>st'. y = Inr st'"
proof -
  define Q where "Q = (\<lambda>w' tv' ex' (y :: error + run_state).
      (w', tv', ex') = (w, task_vars, valid_extensions) \<longrightarrow> (\<exists>st'. y = Inr st'))"
  have "Q w task_vars valid_extensions y"
  proof (rule load_files.raw_induct [where P = "\<lambda>w tv ex i st y. Q w tv ex y", OF _ assms(1)])
    fix loop w' tv ex i and st :: run_state and y
    assume IH: "\<And>w tv ex i st y. loop w tv ex i st = Some y \<Longrightarrow> Q w tv ex y"
      and body: "(if i < length (files_of st)
          then case load_file w' tv ex (files_of st ! i) st of
                 Inl e \<Rightarrow> Some (Inl e)
               | Inr st' \<Rightarrow> loop w' tv ex (Suc i) st'
          else Some (Inr st)) = Some y"
    show "Q w' tv ex y"
      unfolding Q_def
    proof (intro impI)
      assume eq: "(w', tv, ex) = (w, task_vars, valid_extensions)"
      show "\<exists>st'. y = Inr st'"
      proof (cases "i < length (files_of st)")
        case True
        from assms(2) eq obtain st' where "load_file w' tv ex (files_of st ! i) st = Inr st'"
          by blast
        with body True have "loop w' tv ex (Suc i) st' = Some y" by simp
        from IH [OF this] eq show ?thesis unfolding Q_def by blast
      next
        case False
        with body show ?thesis by auto
      qed
    qed
  qed
  then show ?thesis unfolding Q_def by blast
qed

lemma load_files_diverges:
  assumes "files_var st = SameList"
    and "i \<le> j" and "j < length (included_var_files st)"
    and "extension_allowed valid_extensions (included_var_files st ! j)"
    and "\<And>filename st. \<exists>st'. load_file w task_vars valid_extensions filename st = Inr st'"
  shows "load_files w task_vars valid_extensions i st = None"
proof (cases "load_files w task_vars valid_extensions i st")
  case None
  then show ?thesis .
next
  case (Some y)
  from load_files_same_list_loaded [OF Some assms(1-4)] load_files_no_error [OF Some assms(5)]
  show ?thesis by auto
qed

lemma run_plain_file_diverges:
  "run yml_world \<lparr>files = Some [''f1.yml''], literals = None, ignore_missing_files = None,
        extensions = None, other_args = []\<rparr> version_vars = None"
proof -
  have "load_files yml_world version_vars None 0
      \<lparr>included_var_files = [''f1.yml''], files_var = SameList, hostvars_to_update = [],
        hostvars_to_update_files_orig = [], changed = False\<rparr> = None"
    by (rule load_files_diverges [where j = 0])
       (simp_all add: load_file_never_fails_here extension_allowed_def)
  then show ?thesis
    by (simp add: run_def arg_names_def VALID_ARGUMENTS_def files_phase_def initial_state_def
        yml_world_def d1_world_def files_append_def)
qed

lemma run_file_then_dir:
  "run yml_world \<lparr>files = Some [''f1.yml'', ''d1''], literals = None, ignore_missing_files = None,
        extensions = None, other_args = []\<rparr> version_vars =
   Some (Inr \<lparr>result_changed = True,
           ansible_included_var_files = Some [''f1.yml'', ''f1.yml'', ''d1/a.yml'', ''d1/b.yml''],
           ansible_facts = [(''f1.yml'', PInt 1), (''d1/a.yml'', PInt 1), (''d1/b.yml'', PInt 1)]\<rparr>)"
  by (simp add: run_def arg_names_def VALID_ARGUMENTS_def files_phase_def initial_state_def
        yml_world_def d1_world_def files_append_def files_of_def dirfiles_def path_join_def
        load_files_own load_file_def extension_allowed_def version_vars_def
        trusted_as_template_def subscript_def version_ge_2_19_def py_ge_int_def Let_def
        merge_hash_def protect_def deep_diff_keys key_union_def diff_key_def new_path_def
        literals_phase_def finish_def)

lemma run_filtered_file:
  "run yml_world \<lparr>files = Some [''f1.yml''], literals = None, ignore_missing_files = None,
        extensions = Some [''json''], other_args = []\<rparr> version_vars =
   Some (Inr \<lparr>result_changed = False,
           ansible_included_var_files = Some [''f1.yml''],
           ansible_facts = []\<rparr>)"
proof -
  have "load_files yml_world version_vars (Some [''json'']) 0
      \<lparr>included_var_files = [''f1.yml''], files_var = SameList, hostvars_to_update = [],
        hostvars_to_update_files_orig = [], changed = False\<rparr> =
      Some (Inr \<lparr>included_var_files = [''f1.yml''], files_var = SameList, hostvars_to_update = [],
        hostvars_to_update_files_orig = [], changed = False\<rparr>)"
    by (rule load_files_same_list_quiet)
       (simp_all add: extension_allowed_def splitext_ext_def)
  then show ?thesis
    by (simp add: run_def arg_names_def VALID_ARGUMENTS_def files_phase_def initial_state_def
        yml_world_def d1_world_def files_append_def protect_def deep_diff_keys key_union_def
        literals_phase_def finish_def)
qed

text \<open>
  C3 does not hold of the code. The result's list and the local \<^verbatim>\<open>files\<close> are one list
  object until the first directory is met, so the plain files met before it are in the
  result's list before anything is loaded. With the sources \<open>f1.yml\<close> and \<open>d1\<close> the
  returned list names \<open>f1.yml\<close> twice; with the single source \<open>f1.yml\<close> and the extension
  filter \<open>json\<close> it names \<open>f1.yml\<close>, which was never loaded; and with the single source
  \<open>f1.yml\<close> and no filter the loop appends to the list it iterates and the run never
  returns.
\<close>

theorem included_files_aliasing:
  "run yml_world \<lparr>files = Some [''f1.yml'', ''d1''], literals = None, ignore_missing_files = None,
        extensions = None, other_args = []\<rparr> version_vars =
   Some (Inr \<lparr>result_changed = True,
           ansible_included_var_files = Some [''f1.yml'', ''f1.yml'', ''d1/a.yml'', ''d1/b.yml''],
           ansible_facts = [(''f1.yml'', PInt 1), (''d1/a.yml'', PInt 1), (''d1/b.yml'', PInt 1)]\<rparr>) \<and>
   run yml_world \<lparr>files = Some [''f1.yml''], literals = None, ignore_missing_files = None,
        extensions = Some [''json''], other_args = []\<rparr> version_vars =
   Some (Inr \<lparr>result_changed = False,
           ansible_included_var_files = Some [''f1.yml''],
           ansible_facts = []\<rparr>) \<and>
   run yml_world \<lparr>files = Some [''f1.yml''], literals = None, ignore_missing_files = None,
        extensions = None, other_args = []\<rparr> version_vars = None"
  using run_file_then_dir run_filtered_file run_plain_file_diverges by simp

section \<open>Missing sources\<close>

lemma load_files_rule:
  assumes run: "load_files w task_vars valid_extensions i st = Some y"
    and inv: "I st"
    and step: "\<And>f s s'. I s \<Longrightarrow> f \<in> set (files_of s) \<Longrightarrow>
                 load_file w task_vars valid_extensions f s = Inr s' \<Longrightarrow> I s'"
  shows "(\<exists>st'. y = Inr st' \<and> I st') \<or>
         (\<exists>e f s. y = Inl e \<and> load_file w task_vars valid_extensions f s = Inl e)"
proof -
  define Q where "Q = (\<lambda>w' tv' ex' (st :: run_state) (y :: error + run_state).
      (w', tv', ex') = (w, task_vars, valid_extensions) \<longrightarrow> I st \<longrightarrow>
      ((\<exists>st'. y = Inr st' \<and> I st') \<or>
       (\<exists>e f s. y = Inl e \<and> load_file w task_vars valid_extensions f s = Inl e)))"
  have "Q w task_vars valid_extensions st y"
  proof (rule load_files.raw_induct [where P = "\<lambda>w tv ex i st y. Q w tv ex st y", OF _ run])
    fix loop w' tv ex i and st :: run_state and y
    assume IH: "\<And>w tv ex i st y. loop w tv ex i st = Some y \<Longrightarrow> Q w tv ex st y"
      and body: "(if i < length (files_of st)
          then case load_file w' tv ex (files_of st ! i) st of
                 Inl e \<Rightarrow> Some (Inl e)
               | Inr st' \<Rightarrow> loop w' tv ex (Suc i) st'
          else Some (Inr st)) = Some y"
    show "Q w' tv ex st y"
      unfolding Q_def
    proof (intro impI)
      assume eq: "(w', tv, ex) = (w, task_vars, valid_extensions)" and I: "I st"
      show "(\<exists>st'. y = Inr st' \<and> I st') \<or>
            (\<exists>e f s. y = Inl e \<and> load_file w task_vars valid_extensions f s = Inl e)"
      proof (cases "i < length (files_of st)")
        case False
        with body I show ?thesis by auto
      next
        case True
        show ?thesis
        proof (cases "load_file w' tv ex (files_of st ! i) st")
          case (Inl e)
          with body True eq show ?thesis by auto
        next
          case (Inr st')
          with body True have next_run: "loop w' tv ex (Suc i) st' = Some y" by simp
          from True have "files_of st ! i \<in> set (files_of st)" by simp
          with Inr eq I have "I st'" using step [of st "files_of st ! i" st'] by simp
          with IH [OF next_run] eq show ?thesis unfolding Q_def by blast
        qed
      qed
    qed
  qed
  with inv show ?thesis unfolding Q_def by blast
qed

lemma set_dirfiles: "f \<in> set (dirfiles w source) \<Longrightarrow> isfile w f"
  by (auto simp: dirfiles_def)

lemma only_files_append:
  "isfile w source \<Longrightarrow> only_files w st \<Longrightarrow> only_files w (files_append source st)"
  by (cases "files_var st") (auto simp: only_files_def files_append_def files_of_def)

lemma resolve_sources_only_files:
  "resolve_sources w ign sources st = Inr st' \<Longrightarrow> only_files w st \<Longrightarrow> only_files w st'"
proof (induction sources arbitrary: st)
  case Nil
  then show ?case by simp
next
  case (Cons source rest)
  show ?case
  proof (cases "isfile w source")
    case True
    with Cons show ?thesis by (simp add: only_files_append)
  next
    case False
    have "only_files w (st\<lparr>files_var := OwnList (files_of st @ dirfiles w source)\<rparr>)"
      using Cons.prems(2) by (auto simp: only_files_def files_of_def list_all_iff set_dirfiles)
    with False Cons show ?thesis by (auto split: if_splits)
  qed
qed

lemma load_file_only_files:
  assumes "load_file w task_vars valid_extensions f st = Inr st'"
    and "only_files w st" and "f \<in> set (files_of st)"
  shows "only_files w st'"
proof -
  from assms(2,3) have f: "isfile w f" by (auto simp: only_files_def list_all_iff)
  from assms(1) have "files_var st' = files_var st"
    and "included_var_files st' = included_var_files st @
           (if extension_allowed valid_extensions f then [f] else [])"
    by (rule load_file_frame)+
  with assms(2) f show ?thesis
    by (cases "files_var st") (auto simp: only_files_def files_of_def)
qed

lemma load_files_only_files:
  assumes "load_files w task_vars valid_extensions i st = Some (Inr st')" and "only_files w st"
  shows "only_files w st'"
  using load_files_rule [OF assms(1), of "only_files w", OF assms(2)] load_file_only_files
  by blast

lemma trusted_as_template_errors:
  "trusted_as_template task_vars = Inl e \<Longrightarrow> e = TypeError \<or> (\<exists>k. e = KeyError k)"
  by (auto simp: trusted_as_template_def subscript_def version_ge_2_19_def py_ge_int_def
      split: sum.splits option.splits pyval.splits if_splits)

lemma load_file_errors:
  "load_file w task_vars valid_extensions f st = Inl e \<Longrightarrow>
   e = TypeError \<or> (\<exists>k. e = KeyError k) \<or> e = LoaderError f \<or> e = AttributeError"
  by (auto simp: load_file_def Let_def dest: trusted_as_template_errors
      split: sum.splits option.splits pyval.splits if_splits)

lemma load_files_errors:
  assumes "load_files w task_vars valid_extensions i st = Some (Inl e)"
  shows "e = TypeError \<or> (\<exists>k. e = KeyError k) \<or> (\<exists>f. e = LoaderError f) \<or> e = AttributeError"
  using load_files_rule [OF assms, of "\<lambda>s. True"] load_file_errors by blast

lemma apply_literal_frame:
  "apply_literal w task_vars item st = Inr st' \<Longrightarrow>
   included_var_files st' = included_var_files st \<and> files_var st' = files_var st"
  by (auto simp: apply_literal_def Let_def split: pyval.splits option.splits if_splits)

lemma apply_literals_frame:
  "apply_literals w task_vars items st = Inr st' \<Longrightarrow>
   included_var_files st' = included_var_files st \<and> files_var st' = files_var st"
  by (induction items arbitrary: st) (auto split: sum.splits dest: apply_literal_frame)

lemma apply_literal_errors:
  "apply_literal w task_vars item st = Inl e \<Longrightarrow> e = InvalidLiteralError \<or> e = AttributeError"
  by (auto simp: apply_literal_def Let_def split_dot_nonempty
      split: pyval.splits option.splits if_splits)

lemma apply_literals_errors:
  "apply_literals w task_vars items st = Inl e \<Longrightarrow> e = InvalidLiteralError \<or> e = AttributeError"
  by (induction items arbitrary: st) (auto split: sum.splits dest: apply_literal_errors)

lemma literals_phase_errors:
  "literals_phase w args task_vars st = Inl e \<Longrightarrow> e = InvalidLiteralError \<or> e = AttributeError"
  by (auto simp: literals_phase_def split: option.splits pyval.splits dest: apply_literals_errors)

lemma literals_phase_frame:
  "literals_phase w args task_vars st = Inr st' \<Longrightarrow>
   included_var_files st' = included_var_files st"
  by (auto simp: literals_phase_def split: option.splits pyval.splits dest: apply_literals_frame)

lemma resolve_sources_skip:
  "missing w s \<Longrightarrow>
   resolve_sources w True (pre @ s # post) st = resolve_sources w True (pre @ post) st"
  by (induction pre arbitrary: st) (simp_all add: missing_def)

lemma resolve_sources_ignore:
  "resolve_sources w True sources st \<noteq> Inl e"
  by (induction sources arbitrary: st) simp_all


lemma valid_arg_names:
  "set (other_args args) \<subseteq> set VALID_ARGUMENTS \<Longrightarrow>
   filter (\<lambda>arg. arg \<notin> set VALID_ARGUMENTS) (arg_names args) = []"
  by (auto simp: arg_names_def VALID_ARGUMENTS_def filter_empty_conv split: option.splits)

lemma only_files_initial:
  "only_files w (initial_state\<lparr>included_var_files := [], files_var := SameList\<rparr>)"
  by (simp add: only_files_def files_of_def)

lemma only_files_orig:
  "only_files w (st\<lparr>hostvars_to_update_files_orig := x\<rparr>) = only_files w st"
  by (cases "files_var st") (simp_all add: only_files_def files_of_def)

lemma files_phase_only_files:
  assumes "files_phase w args task_vars initial_state = Some (Inr st)"
    and "files args = Some sources"
  shows "list_all (isfile w) (included_var_files st)"
proof -
  from assms obtain st1 st2 where
    r: "resolve_sources w (case ignore_missing_files args of None \<Rightarrow> False | Some b \<Rightarrow> b)
          sources (initial_state\<lparr>included_var_files := [], files_var := SameList\<rparr>) = Inr st1"
    and l: "load_files w task_vars (extensions args) 0
          (st1\<lparr>hostvars_to_update_files_orig := []\<rparr>) = Some (Inr st2)"
    and inc: "included_var_files st = included_var_files st2"
    by (auto simp: files_phase_def Let_def split: sum.splits option.splits if_splits)
  from resolve_sources_only_files [OF r only_files_initial] have "only_files w st1" .
  then have "only_files w (st1\<lparr>hostvars_to_update_files_orig := []\<rparr>)"
    by (simp add: only_files_orig)
  from load_files_only_files [OF l this] inc show ?thesis by (simp add: only_files_def)
qed

lemma run_included_only_files:
  assumes "run w args task_vars = Some (Inr res)"
    and "ansible_included_var_files res = Some fs"
  shows "list_all (isfile w) fs"
proof -
  from assms obtain st st' where
    f: "files_phase w args task_vars initial_state = Some (Inr st)"
    and l: "literals_phase w args task_vars st = Inr st'"
    and res: "res = finish args st'"
    by (auto simp: run_def Let_def split: if_splits option.splits sum.splits)
  from assms(2) res obtain sources where src: "files args = Some sources"
    and fs: "fs = included_var_files st'"
    by (auto simp: finish_def split: option.splits)
  from files_phase_only_files [OF f src] literals_phase_frame [OF l] fs show ?thesis by simp
qed

lemma files_phase_skip:
  assumes "missing w s" and "ignore_missing_files args = Some True"
    and "files args = Some (pre @ s # post)"
  shows "files_phase w (args\<lparr>files := Some (pre @ post)\<rparr>) task_vars st =
         files_phase w args task_vars st"
  using assms by (simp add: files_phase_def resolve_sources_skip cong: sum.case_cong)

lemma literals_phase_files:
  "literals_phase w (args\<lparr>files := x\<rparr>) task_vars st = literals_phase w args task_vars st"
  by (simp add: literals_phase_def)

lemma finish_files:
  "files args = Some x \<Longrightarrow> finish (args\<lparr>files := Some y\<rparr>) st = finish args st"
  by (simp add: finish_def)

lemma arg_names_files:
  "files args = Some x \<Longrightarrow> arg_names (args\<lparr>files := Some y\<rparr>) = arg_names args"
  by (simp add: arg_names_def)

lemma run_skip_missing:
  assumes "missing w s" and "ignore_missing_files args = Some True"
    and "files args = Some (pre @ s # post)"
  shows "run w args task_vars = run w (args\<lparr>files := Some (pre @ post)\<rparr>) task_vars"
  unfolding run_def
  by (simp add: files_phase_skip [OF assms] literals_phase_files finish_files [OF assms(3)]
      arg_names_files [OF assms(3)] assms(3) Let_def
      cong: if_cong option.case_cong sum.case_cong)

lemma files_phase_ignore:
  assumes "ignore_missing_files args = Some True"
  shows "files_phase w args task_vars st \<noteq> Some (Inl (SourceNotFoundError x))"
proof
  assume a: "files_phase w args task_vars st = Some (Inl (SourceNotFoundError x))"
  then obtain sources st1 where "files args = Some sources"
    and "load_files w task_vars (extensions args) 0 st1 = Some (Inl (SourceNotFoundError x))"
    using assms
    by (auto simp: files_phase_def Let_def resolve_sources_ignore
        split: sum.splits option.splits if_splits)
  from load_files_errors [OF this(2)] show False by simp
qed

lemma run_ignore_never_not_found:
  assumes "ignore_missing_files args = Some True"
  shows "run w args task_vars \<noteq> Some (Inl (SourceNotFoundError x))"
proof
  assume a: "run w args task_vars = Some (Inl (SourceNotFoundError x))"
  then show False
    using files_phase_ignore [OF assms, of w task_vars initial_state x]
    by (auto simp: run_def Let_def split: if_splits option.splits sum.splits
        dest: literals_phase_errors)
qed

lemma run_source_not_found:
  assumes "ignore_missing_files args \<noteq> Some True"
    and "files args = Some (pre @ s # post)"
    and "missing w s" and "filter (missing w) pre = []"
    and "set (other_args args) \<subseteq> set VALID_ARGUMENTS"
  shows "run w args task_vars = Some (Inl (SourceNotFoundError s))"
proof -
  from assms(1) have ign: "\<not> (case ignore_missing_files args of None \<Rightarrow> False | Some b \<Rightarrow> b)"
    by (cases "ignore_missing_files args") auto
  from assms(3,4) have "filter (missing w) (pre @ s # post) = s # filter (missing w) post"
    by simp
  from resolve_sources_fails [OF ign this]
  show ?thesis using assms(2)
    by (simp add: run_def valid_arg_names [OF assms(5)] files_phase_def)
qed

lemma resolve_sources_all_missing:
  "list_all (missing w) sources \<Longrightarrow> resolve_sources w True sources st = Inr st"
  by (induction sources arbitrary: st) (simp_all add: missing_def)

lemma load_files_empty:
  "files_of st = [] \<Longrightarrow> load_files w task_vars valid_extensions 0 st = Some (Inr st)"
  by (subst load_files.simps) simp

lemma run_all_missing:
  assumes "files args = Some sources" and "list_all (missing w) sources"
    and "ignore_missing_files args = Some True" and "literals args = None"
    and "set (other_args args) \<subseteq> set VALID_ARGUMENTS"
  shows "run w args task_vars =
     Some (Inr \<lparr>result_changed = False, ansible_included_var_files = Some [], ansible_facts = []\<rparr>)"
  using assms(1,3,4)
  by (simp add: run_def valid_arg_names [OF assms(5)] files_phase_def initial_state_def
      resolve_sources_all_missing [OF assms(2)] load_files_empty files_of_def protect_def
      deep_diff_keys key_union_def literals_phase_def finish_def Let_def)

text \<open>
  C6, as the claim states it, fails: a run that skips a missing entry need not succeed.
  The literals can be ill-formed and the loader can fail on another entry, and a plain
  file that stands before the missing entry makes the loading loop iterate the list it
  appends to, so that the run does not return.
\<close>

theorem ignored_source_counterexample:
  "missing yml_world ''nope'' \<and> missing d1_world ''nope'' \<and>
   run yml_world \<lparr>files = Some [''nope''], literals = Some (PStr ''x''),
        ignore_missing_files = Some True, extensions = None, other_args = []\<rparr> version_vars =
     Some (Inl InvalidLiteralError) \<and>
   run d1_world \<lparr>files = Some [''d1'', ''nope''], literals = None,
        ignore_missing_files = Some True, extensions = None, other_args = []\<rparr> version_vars =
     Some (Inl (LoaderError ''d1/a.yml'')) \<and>
   run yml_world \<lparr>files = Some [''f1.yml'', ''nope''], literals = None,
        ignore_missing_files = Some True, extensions = None, other_args = []\<rparr> version_vars = None"
proof -
  have m: "missing yml_world ''nope''" "missing d1_world ''nope''"
    by (simp_all add: missing_def yml_world_def d1_world_def)
  have a: "run yml_world \<lparr>files = Some [''nope''], literals = Some (PStr ''x''),
        ignore_missing_files = Some True, extensions = None, other_args = []\<rparr> version_vars =
     Some (Inl InvalidLiteralError)"
    by (simp add: run_def arg_names_def VALID_ARGUMENTS_def files_phase_def initial_state_def
        yml_world_def d1_world_def load_files_empty files_of_def protect_def
        deep_diff_keys key_union_def literals_phase_def Let_def)
  have b: "run d1_world \<lparr>files = Some [''d1'', ''nope''], literals = None,
        ignore_missing_files = Some True, extensions = None, other_args = []\<rparr> version_vars =
     Some (Inl (LoaderError ''d1/a.yml''))"
    by (simp add: run_def arg_names_def VALID_ARGUMENTS_def files_phase_def initial_state_def
        d1_world_def files_append_def files_of_def dirfiles_def path_join_def
        load_files_own load_file_def extension_allowed_def version_vars_def
        trusted_as_template_def subscript_def version_ge_2_19_def py_ge_int_def Let_def)
  have "load_files yml_world version_vars None 0
      \<lparr>included_var_files = [''f1.yml''], files_var = SameList, hostvars_to_update = [],
        hostvars_to_update_files_orig = [], changed = False\<rparr> = None"
    by (rule load_files_diverges [where j = 0])
       (simp_all add: load_file_never_fails_here extension_allowed_def)
  then have c: "run yml_world \<lparr>files = Some [''f1.yml'', ''nope''], literals = None,
        ignore_missing_files = Some True, extensions = None, other_args = []\<rparr> version_vars = None"
    by (simp add: run_def arg_names_def VALID_ARGUMENTS_def files_phase_def initial_state_def
        yml_world_def d1_world_def files_append_def)
  from m a b c show ?thesis by blast
qed

text \<open>
  C6, amended. Let \<open>s\<close> be an entry of the source list that is neither a file nor a
  directory. With \<^verbatim>\<open>ignore_missing_files\<close> true the entry is skipped: the run is the run
  without the entry, so it succeeds with the same result whenever the run without the
  entry succeeds, and it succeeds with nothing loaded when every entry is missing and
  there are no literals; no run fails for a missing source, and a result never lists
  the entry among the included files. With \<^verbatim>\<open>ignore_missing_files\<close> false or absent, and
  recognised options only, the run fails with the error that names the first missing
  entry, and returns no tree.
\<close>

theorem missing_source_policy:
  "(missing w s \<and> ignore_missing_files args = Some True \<and> files args = Some (pre @ s # post) \<longrightarrow>
      run w args task_vars = run w (args\<lparr>files := Some (pre @ post)\<rparr>) task_vars \<and>
      (\<forall>res. run w (args\<lparr>files := Some (pre @ post)\<rparr>) task_vars = Some (Inr res) \<longrightarrow>
          run w args task_vars = Some (Inr res)) \<and>
      (list_all (missing w) (pre @ post) \<and> literals args = None \<and>
       set (other_args args) \<subseteq> set VALID_ARGUMENTS \<longrightarrow>
          run w args task_vars =
            Some (Inr \<lparr>result_changed = False, ansible_included_var_files = Some [],
                       ansible_facts = []\<rparr>)) \<and>
      (\<forall>x. run w args task_vars \<noteq> Some (Inl (SourceNotFoundError x))) \<and>
      (\<forall>res fs. run w args task_vars = Some (Inr res) \<and>
          ansible_included_var_files res = Some fs \<longrightarrow> s \<notin> set fs)) \<and>
   (missing w s \<and> ignore_missing_files args \<noteq> Some True \<and>
    files args = Some (pre @ s # post) \<and> filter (missing w) pre = [] \<and>
    set (other_args args) \<subseteq> set VALID_ARGUMENTS \<longrightarrow>
      run w args task_vars = Some (Inl (SourceNotFoundError s)))"
proof (intro conjI impI allI)
  assume "missing w s \<and> ignore_missing_files args = Some True \<and>
      files args = Some (pre @ s # post)"
  then show "run w args task_vars = run w (args\<lparr>files := Some (pre @ post)\<rparr>) task_vars"
    by (intro run_skip_missing) simp_all
next
  fix res
  assume "missing w s \<and> ignore_missing_files args = Some True \<and>
      files args = Some (pre @ s # post)"
  then have "run w args task_vars = run w (args\<lparr>files := Some (pre @ post)\<rparr>) task_vars"
    by (intro run_skip_missing) simp_all
  moreover assume "run w (args\<lparr>files := Some (pre @ post)\<rparr>) task_vars = Some (Inr res)"
  ultimately show "run w args task_vars = Some (Inr res)" by simp
next
  assume m: "missing w s \<and> ignore_missing_files args = Some True \<and>
      files args = Some (pre @ s # post)"
    and h: "list_all (missing w) (pre @ post) \<and> literals args = None \<and>
       set (other_args args) \<subseteq> set VALID_ARGUMENTS"
  from m h have "list_all (missing w) (pre @ s # post)" by simp
  with m h show "run w args task_vars =
      Some (Inr \<lparr>result_changed = False, ansible_included_var_files = Some [],
                 ansible_facts = []\<rparr>)"
    by (intro run_all_missing) blast+
next
  fix x
  assume "missing w s \<and> ignore_missing_files args = Some True \<and>
      files args = Some (pre @ s # post)"
  then show "run w args task_vars \<noteq> Some (Inl (SourceNotFoundError x))"
    by (simp add: run_ignore_never_not_found)
next
  fix res fs
  assume m: "missing w s \<and> ignore_missing_files args = Some True \<and>
      files args = Some (pre @ s # post)"
    and "run w args task_vars = Some (Inr res) \<and> ansible_included_var_files res = Some fs"
  then have "list_all (isfile w) fs" by (auto dest: run_included_only_files)
  with m show "s \<notin> set fs" by (auto simp: missing_def list_all_iff)
next
  assume "missing w s \<and> ignore_missing_files args \<noteq> Some True \<and>
    files args = Some (pre @ s # post) \<and> filter (missing w) pre = [] \<and>
    set (other_args args) \<subseteq> set VALID_ARGUMENTS"
  then show "run w args task_vars = Some (Inl (SourceNotFoundError s))"
    by (simp add: run_source_not_found)
qed


lemma run_dir_then_missing:
  "run yml_world \<lparr>files = Some [''d1''], literals = None, ignore_missing_files = Some True,
        extensions = None, other_args = []\<rparr> version_vars =
   Some (Inr \<lparr>result_changed = True,
           ansible_included_var_files = Some [''d1/a.yml'', ''d1/b.yml''],
           ansible_facts = [(''d1/a.yml'', PInt 1), (''d1/b.yml'', PInt 1)]\<rparr>)"
  by (simp add: run_def arg_names_def VALID_ARGUMENTS_def files_phase_def initial_state_def
        yml_world_def d1_world_def files_append_def files_of_def dirfiles_def path_join_def
        load_files_own load_file_def extension_allowed_def version_vars_def
        trusted_as_template_def subscript_def version_ge_2_19_def py_ge_int_def Let_def
        merge_hash_def protect_def deep_diff_keys key_union_def diff_key_def new_path_def
        literals_phase_def finish_def)

theorem missing_source_policy_witness:
  "missing yml_world ''nope'' \<and>
   run yml_world \<lparr>files = Some [''d1'', ''nope''], literals = None,
        ignore_missing_files = Some True, extensions = None, other_args = []\<rparr> version_vars =
   Some (Inr \<lparr>result_changed = True,
           ansible_included_var_files = Some [''d1/a.yml'', ''d1/b.yml''],
           ansible_facts = [(''d1/a.yml'', PInt 1), (''d1/b.yml'', PInt 1)]\<rparr>) \<and>
   run yml_world \<lparr>files = Some [''d1'', ''nope''], literals = None,
        ignore_missing_files = Some False, extensions = None, other_args = []\<rparr> version_vars =
   Some (Inl (SourceNotFoundError ''nope''))"
  using missing_source_policy [of yml_world "''nope''"
      "\<lparr>files = Some [''d1'', ''nope''], literals = None,
        ignore_missing_files = Some True, extensions = None, other_args = []\<rparr>"
      "[''d1'']" "[]" version_vars]
    missing_source_policy [of yml_world "''nope''"
      "\<lparr>files = Some [''d1'', ''nope''], literals = None,
        ignore_missing_files = Some False, extensions = None, other_args = []\<rparr>"
      "[''d1'']" "[]" version_vars]
    run_dir_then_missing
  by (simp add: missing_def yml_world_def d1_world_def)

text \<open>
  C10. When an entry of the source list is missing and missing sources are not ignored,
  the run fails with the error of the first missing entry whatever the loader, the
  templar, the extra-vars and the variables of the host are, also when existing files
  and directories stand before the missing entry: the outcome is fixed before the
  loader could be asked for any file or anything could be merged.
\<close>

theorem resolution_precedes_loading:
  "ignore_missing_files args \<noteq> Some True \<and> files args = Some (pre @ s # post) \<and>
   missing w s \<and> filter (missing w) pre = [] \<and>
   set (other_args args) \<subseteq> set VALID_ARGUMENTS \<longrightarrow>
   (\<forall>ld tm ev tv.
      run (w\<lparr>load_from_file := ld, template := tm, extra_vars := ev\<rparr>) args tv =
        Some (Inl (SourceNotFoundError s)))"
proof (intro impI allI)
  fix ld tm ev tv
  let ?w = "w\<lparr>load_from_file := ld, template := tm, extra_vars := ev\<rparr>"
  assume h: "ignore_missing_files args \<noteq> Some True \<and> files args = Some (pre @ s # post) \<and>
   missing w s \<and> filter (missing w) pre = [] \<and>
   set (other_args args) \<subseteq> set VALID_ARGUMENTS"
  have m: "missing ?w = missing w" by (simp add: missing_def fun_eq_iff)
  from h have "ignore_missing_files args \<noteq> Some True" and "files args = Some (pre @ s # post)"
    and "missing ?w s" and "filter (missing ?w) pre = []"
    and "set (other_args args) \<subseteq> set VALID_ARGUMENTS"
    unfolding m by blast+
  then show "run ?w args tv = Some (Inl (SourceNotFoundError s))"
    by (rule run_source_not_found)
qed

theorem resolution_precedes_loading_witness:
  "missing yml_world ''nope'' \<and> filter (missing yml_world) [''f1.yml'', ''d1''] = [] \<and>
   (\<forall>ld. run (yml_world\<lparr>load_from_file := ld\<rparr>)
      \<lparr>files = Some [''f1.yml'', ''d1'', ''nope'', ''d1''], literals = None,
        ignore_missing_files = None, extensions = None, other_args = []\<rparr> version_vars =
      Some (Inl (SourceNotFoundError ''nope'')))"
proof -
  have "run (yml_world\<lparr>load_from_file := ld, template := template yml_world,
                  extra_vars := extra_vars yml_world\<rparr>)
      \<lparr>files = Some [''f1.yml'', ''d1'', ''nope'', ''d1''], literals = None,
        ignore_missing_files = None, extensions = None, other_args = []\<rparr> version_vars =
      Some (Inl (SourceNotFoundError ''nope''))" for ld
    using resolution_precedes_loading [of
      "\<lparr>files = Some [''f1.yml'', ''d1'', ''nope'', ''d1''], literals = None,
        ignore_missing_files = None, extensions = None, other_args = []\<rparr>"
      "[''f1.yml'', ''d1'']" "''nope''" "[''d1'']" yml_world]
    by (simp add: missing_def yml_world_def d1_world_def)
  then show ?thesis
    by (simp add: missing_def yml_world_def d1_world_def)
qed

section \<open>The protected keys\<close>

lemma fold_update_map_of:
  "map_of (fold (\<lambda>u h. AList.update u (f u) h) ks h) k =
     (if k \<in> set ks then Some (f k) else map_of h k)"
  by (induction ks arbitrary: h) (simp_all add: AList.update_conv')

lemma map_of_protect:
  "map_of (protect w hv) k =
     (if k \<in> fst ` set hv \<and> map_of (extra_vars w) k \<noteq> None
      then map_of (extra_vars w) k else map_of hv k)"
  by (auto simp: protect_def fold_update_map_of)

lemma protect_pinned:
  assumes "map_of (extra_vars w) k = Some e"
  shows "map_of (protect w hv) k = None \<or> map_of (protect w hv) k = Some e"
proof (cases "k \<in> fst ` set hv")
  case True
  with assms show ?thesis by (simp add: map_of_protect)
next
  case False
  then have "map_of hv k = None" by (simp add: map_of_eq_None_iff)
  with False show ?thesis by (simp add: map_of_protect)
qed

lemma set_path_other_key:
  "keys \<noteq> [] \<Longrightarrow> k \<noteq> hd keys \<Longrightarrow> map_of (fst (set_path keys v cur)) k = map_of cur k"
  by (induction keys v cur rule: set_path.induct) (simp_all add: Let_def AList.update_conv')

lemma seed_top_other_key: "k \<noteq> key \<Longrightarrow> map_of (seed_top task_vars key hv) k = map_of hv k"
  by (simp add: seed_top_def AList.update_conv')

lemma literal_other_key:
  assumes "keys \<noteq> []" and "map_of E (hd keys) = None" and "map_of E k = Some e"
  shows "map_of (fst (set_path keys v (seed_top task_vars (hd keys) hv))) k = map_of hv k"
proof -
  from assms(2,3) have "k \<noteq> hd keys" by auto
  with assms(1) show ?thesis by (simp add: set_path_other_key seed_top_other_key)
qed

lemma apply_literal_extra_key:
  assumes "apply_literal w task_vars item st = Inr st'"
    and "map_of (extra_vars w) k = Some e"
  shows "map_of (hostvars_to_update st') k = map_of (hostvars_to_update st) k"
  using assms
  by (auto simp: apply_literal_def Let_def split_dot_nonempty literal_other_key
      split: pyval.splits option.splits if_splits)

lemma apply_literals_extra_key:
  "apply_literals w task_vars items st = Inr st' \<Longrightarrow> map_of (extra_vars w) k = Some e \<Longrightarrow>
   map_of (hostvars_to_update st') k = map_of (hostvars_to_update st) k"
  by (induction items arbitrary: st) (auto split: sum.splits dest: apply_literal_extra_key)

lemma literals_phase_extra_key:
  "literals_phase w args task_vars st = Inr st' \<Longrightarrow> map_of (extra_vars w) k = Some e \<Longrightarrow>
   map_of (hostvars_to_update st') k = map_of (hostvars_to_update st) k"
  by (auto simp: literals_phase_def split: option.splits pyval.splits
      dest: apply_literals_extra_key)

lemma files_phase_pinned:
  assumes "files_phase w args task_vars initial_state = Some (Inr st)"
    and "map_of (extra_vars w) k = Some e"
  shows "map_of (hostvars_to_update st) k = None \<or> map_of (hostvars_to_update st) k = Some e"
proof (cases "files args")
  case None
  with assms(1) show ?thesis by (auto simp: files_phase_def initial_state_def)
next
  case (Some sources)
  with assms(1) have "\<exists>hv. hostvars_to_update st = protect w hv"
    by (auto simp: files_phase_def Let_def split: sum.splits option.splits if_splits)
  then obtain hv where "hostvars_to_update st = protect w hv" by blast
  with protect_pinned [OF assms(2), of hv] show ?thesis by simp
qed

text \<open>
  C1. In the tree that a run returns, a top-level key that is an extra-var has the value
  of the extra-var, whatever the files and the literals say.
\<close>

theorem protected_keys_pinned:
  "run w args task_vars = Some (Inr res) \<and> map_of (extra_vars w) k = Some e \<and>
   map_of (ansible_facts res) k = Some v \<longrightarrow> v = e"
proof
  assume h: "run w args task_vars = Some (Inr res) \<and> map_of (extra_vars w) k = Some e \<and>
   map_of (ansible_facts res) k = Some v"
  then obtain st st' where
    f: "files_phase w args task_vars initial_state = Some (Inr st)"
    and l: "literals_phase w args task_vars st = Inr st'"
    and res: "res = finish args st'"
    by (auto simp: run_def Let_def split: if_splits option.splits sum.splits)
  from h have e: "map_of (extra_vars w) k = Some e" by simp
  from h res have "map_of (hostvars_to_update st') k = Some v" by (simp add: finish_def)
  with literals_phase_extra_key [OF l e] have "map_of (hostvars_to_update st) k = Some v" by simp
  with files_phase_pinned [OF f e] show "v = e" by simp
qed

lemma run_pinned_example:
  "run pinned_world
     \<lparr>files = Some [''d1''],
      literals = Some (PList [PDict [(''path'', PStr ''region.name''), (''value'', PInt 3)],
                              PDict [(''path'', PStr ''zone''), (''value'', PInt 2)]]),
      ignore_missing_files = None, extensions = None, other_args = []\<rparr> version_vars =
   Some (Inr \<lparr>result_changed = True,
           ansible_included_var_files = Some [''d1/a.yml'', ''d1/b.yml''],
           ansible_facts = [(''region'', PStr ''pinned''), (''zone'', PInt 2)]\<rparr>)"
  by (simp add: run_def arg_names_def VALID_ARGUMENTS_def files_phase_def initial_state_def
        pinned_world_def d1_world_def files_append_def files_of_def dirfiles_def path_join_def
        load_files_own load_file_def extension_allowed_def version_vars_def
        trusted_as_template_def subscript_def version_ge_2_19_def py_ge_int_def Let_def
        merge_hash_def protect_def deep_diff_keys key_union_def diff_key_def new_path_def
        literals_phase_def apply_literal_def seed_top_def finish_def)

theorem protected_keys_pinned_witness:
  "run pinned_world
     \<lparr>files = Some [''d1''],
      literals = Some (PList [PDict [(''path'', PStr ''region.name''), (''value'', PInt 3)],
                              PDict [(''path'', PStr ''zone''), (''value'', PInt 2)]]),
      ignore_missing_files = None, extensions = None, other_args = []\<rparr> version_vars =
   Some (Inr \<lparr>result_changed = True,
           ansible_included_var_files = Some [''d1/a.yml'', ''d1/b.yml''],
           ansible_facts = [(''region'', PStr ''pinned''), (''zone'', PInt 2)]\<rparr>) \<and>
   map_of (extra_vars pinned_world) ''region'' = Some (PStr ''pinned'') \<and>
   map_of [(''region'', PStr ''pinned''), (''zone'', PInt 2)] ''region'' = Some (PStr ''pinned'')"
  using protected_keys_pinned [of pinned_world
     "\<lparr>files = Some [''d1''],
      literals = Some (PList [PDict [(''path'', PStr ''region.name''), (''value'', PInt 3)],
                              PDict [(''path'', PStr ''zone''), (''value'', PInt 2)]]),
      ignore_missing_files = None, extensions = None, other_args = []\<rparr>" version_vars
     "\<lparr>result_changed = True,
           ansible_included_var_files = Some [''d1/a.yml'', ''d1/b.yml''],
           ansible_facts = [(''region'', PStr ''pinned''), (''zone'', PInt 2)]\<rparr>"
     "''region''" "PStr ''pinned''" "PStr ''pinned''"]
    run_pinned_example
  by (simp add: pinned_world_def)

section \<open>The variables of the host are not mutated\<close>

lemma set_update_cases: "p \<in> set (AList.update k v xs) \<Longrightarrow> p = (k, v) \<or> p \<in> set xs"
  by (induction xs) (auto split: if_splits)

lemma new_dict_simps:
  "fst (new_dict s) = next_free s"
  "next_free (snd (new_dict s)) = Suc (next_free s)"
  "cells (snd (new_dict s)) a = (if a = next_free s then [] else cells s a)"
  by (simp_all add: new_dict_def)

lemma setitem_simps:
  "next_free (setitem b k v s) = next_free s"
  "cells (setitem b k v s) a = (if a = b then AList.update k v (cells s b) else cells s a)"
  by (simp_all add: setitem_def)

lemma region_closed_new_dict:
  assumes "region_closed lo s" and "lo \<le> next_free s"
  shows "region_closed lo (snd (new_dict s))"
  unfolding region_closed_def new_dict_simps
proof (intro allI impI ballI)
  fix a p
  assume a: "lo \<le> a" "a < Suc (next_free s)"
    and p: "p \<in> set (if a = next_free s then [] else cells s a)"
  then have "a < next_free s" and "p \<in> set (cells s a)" by (auto split: if_splits)
  with assms(1) a(1) have "refs (snd p) \<subseteq> {lo..<next_free s}"
    unfolding region_closed_def by blast
  then show "refs (snd p) \<subseteq> {lo..<Suc (next_free s)}" by auto
qed

lemma region_closed_setitem:
  assumes "region_closed lo s" and "lo \<le> b" and "b < next_free s"
    and "refs v \<subseteq> {lo..<next_free s}"
  shows "region_closed lo (setitem b k v s)"
  unfolding region_closed_def setitem_simps
proof (intro allI impI ballI)
  fix a p
  assume a: "lo \<le> a" "a < next_free s"
    and p: "p \<in> set (if a = b then AList.update k v (cells s b) else cells s a)"
  show "refs (snd p) \<subseteq> {lo..<next_free s}"
  proof (cases "a = b")
    case True
    with p have "p = (k, v) \<or> p \<in> set (cells s b)" by (auto dest: set_update_cases)
    with assms True a show ?thesis unfolding region_closed_def by auto
  next
    case False
    with p a assms(1) show ?thesis unfolding region_closed_def by auto
  qed
qed

lemma deepcopy_frame:
  "deepcopy n v s = Some r \<Longrightarrow> lo \<le> next_free s \<Longrightarrow> region_closed lo s \<Longrightarrow>
     next_free s \<le> next_free (snd r) \<and> (\<forall>a<lo. cells (snd r) a = cells s a) \<and>
     region_closed lo (snd r) \<and> refs (fst r) \<subseteq> {lo..<next_free (snd r)}"
  "deepcopy_list n vs s = Some rl \<Longrightarrow> lo \<le> next_free s \<Longrightarrow> region_closed lo s \<Longrightarrow>
     next_free s \<le> next_free (snd rl) \<and> (\<forall>a<lo. cells (snd rl) a = cells s a) \<and>
     region_closed lo (snd rl) \<and> refs_list (fst rl) \<subseteq> {lo..<next_free (snd rl)}"
  "deepcopy_items n items b s = Some s' \<Longrightarrow> lo \<le> b \<Longrightarrow> b < next_free s \<Longrightarrow>
     region_closed lo s \<Longrightarrow>
     next_free s \<le> next_free s' \<and> (\<forall>a<lo. cells s' a = cells s a) \<and> region_closed lo s'"
proof (induction n v s and n vs s and n items b s arbitrary: r lo and rl lo and s' lo
    rule: deepcopy_deepcopy_list_deepcopy_items.induct)
  case (1 v s)
  then show ?case by simp
next
  case (2 n a s)
  from "2.prems"(1) obtain s' where
    items: "deepcopy_items n (cells s a) (next_free s) (snd (new_dict s)) = Some s'"
    and r: "r = (HRef (next_free s), s')"
    by (auto simp: new_dict_simps split: option.splits)
  have "region_closed lo (snd (new_dict s))"
    using "2.prems" by (simp add: region_closed_new_dict)
  with "2.IH" [of s' lo] items "2.prems"(2)
  have "next_free (snd (new_dict s)) \<le> next_free s' \<and>
      (\<forall>a<lo. cells s' a = cells (snd (new_dict s)) a) \<and> region_closed lo s'"
    by (simp add: new_dict_simps)
  with r "2.prems"(2) show ?case by (auto simp: new_dict_simps)
next
  case (3 n vs s)
  from "3.prems"(1) obtain rl where
    l: "deepcopy_list n vs s = Some rl" and r: "r = (HList (fst rl), snd rl)"
    by (auto split: option.splits)
  from "3.IH" [OF l "3.prems"(2,3)] r show ?case by simp
next
  case (6 n v vs s)
  from "6.prems"(1) obtain r1 r2 where
    one: "deepcopy n v s = Some r1"
    and rest: "deepcopy_list n vs (snd r1) = Some r2"
    and rl: "rl = (fst r1 # fst r2, snd r2)"
    by (auto split: option.splits)
  from "6.IH"(1) [OF one "6.prems"(2,3)]
  have f1: "next_free s \<le> next_free (snd r1)" "\<forall>a<lo. cells (snd r1) a = cells s a"
    "region_closed lo (snd r1)" "refs (fst r1) \<subseteq> {lo..<next_free (snd r1)}" by auto
  from f1(1) "6.prems"(2) have lo: "lo \<le> next_free (snd r1)" by simp
  from "6.IH"(2) [OF one rest lo f1(3)]
  have f2: "next_free (snd r1) \<le> next_free (snd r2)" "\<forall>a<lo. cells (snd r2) a = cells (snd r1) a"
    "region_closed lo (snd r2)" "refs_list (fst r2) \<subseteq> {lo..<next_free (snd r2)}" by auto
  from f1 f2 rl show ?case by auto
next
  case (8 n key v items b s)
  from "8.prems"(1) obtain r1 where
    one: "deepcopy n v s = Some r1"
    and rest: "deepcopy_items n items b (setitem b key (fst r1) (snd r1)) = Some s'"
    by (auto split: option.splits)
  from "8.prems" have lo: "lo \<le> next_free s" by simp
  from "8.IH"(1) [OF one lo "8.prems"(4)]
  have f1: "next_free s \<le> next_free (snd r1)" "\<forall>a<lo. cells (snd r1) a = cells s a"
    "region_closed lo (snd r1)" "refs (fst r1) \<subseteq> {lo..<next_free (snd r1)}" by auto
  from f1(1) "8.prems"(3) have b: "b < next_free (snd r1)" by simp
  have rc: "region_closed lo (setitem b key (fst r1) (snd r1))"
    using f1(3) "8.prems"(2) b f1(4) by (rule region_closed_setitem)
  from "8.IH"(2) [OF one rest "8.prems"(2) _ rc] b
  have f2: "next_free (snd r1) \<le> next_free s'"
    "\<forall>a<lo. cells s' a = cells (setitem b key (fst r1) (snd r1)) a" "region_closed lo s'"
    by (auto simp: setitem_simps)
  from f1 f2 "8.prems"(2) show ?case by (auto simp: setitem_simps)
qed auto


lemma sub_dict_Some: "sub_dict s current key = Some a \<Longrightarrow> (key, HRef a) \<in> set (cells s current)"
  by (auto simp: sub_dict_def split: option.splits hval.splits dest: map_of_SomeD)

lemma h_set_path_frame:
  "current \<in> own \<Longrightarrow> owned_closed s own \<Longrightarrow> refs v \<subseteq> own \<Longrightarrow>
   next_free s \<le> next_free (h_set_path keys v current s) \<and>
   owned_closed (h_set_path keys v current s)
     (own \<union> {next_free s..<next_free (h_set_path keys v current s)}) \<and>
   (\<forall>a. a \<notin> own \<and> a < next_free s \<longrightarrow> cells (h_set_path keys v current s) a = cells s a)"
proof (induction keys v current s arbitrary: own rule: h_set_path.induct)
  case (1 new_value current s)
  then show ?case by (auto simp: owned_closed_def)
next
  case (2 key new_value current s)
  have "owned_closed (setitem current key new_value s) own"
    unfolding owned_closed_def setitem_simps
  proof (intro ballI conjI)
    fix a assume "a \<in> own"
    with 2 show "a < next_free s" by (simp add: owned_closed_def)
  next
    fix a p
    assume a: "a \<in> own"
      and p: "p \<in> set (if a = current then AList.update key new_value (cells s current) else cells s a)"
    then have "p = (key, new_value) \<or> p \<in> set (cells s a)"
      by (auto split: if_splits dest: set_update_cases)
    with 2 a show "refs (snd p) \<subseteq> own" by (auto simp: owned_closed_def)
  qed
  with 2 show ?case by (auto simp: setitem_simps)
next
  case (3 key k2 keys new_value current s)
  show ?case
  proof (cases "sub_dict s current key")
    case (Some a)
    then have "(key, HRef a) \<in> set (cells s current)" by (rule sub_dict_Some)
    with "3.prems" have "a \<in> own" by (force simp: owned_closed_def)
    from "3.IH"(2) [OF Some this "3.prems"(2,3)] Some show ?thesis by simp
  next
    case None
    let ?a = "next_free s"
    let ?s1 = "setitem current key (HRef ?a) (snd (new_dict s))"
    let ?own1 = "own \<union> {?a}"
    let ?s' = "h_set_path (k2 # keys) new_value ?a ?s1"
    from None have step: "h_set_path (key # k2 # keys) new_value current s = ?s'"
      by (simp add: new_dict_simps)
    have cur: "current < next_free s" using "3.prems" by (simp add: owned_closed_def)
    have closed1: "owned_closed ?s1 ?own1"
      unfolding owned_closed_def setitem_simps new_dict_simps
    proof (intro ballI conjI)
      fix a assume "a \<in> ?own1"
      with "3.prems" show "a < Suc (next_free s)" by (auto simp: owned_closed_def less_Suc_eq)
    next
      fix a p
      assume a: "a \<in> ?own1"
        and p: "p \<in> set (if a = current
                 then AList.update key (HRef ?a) (if current = ?a then [] else cells s current)
                 else if a = ?a then [] else cells s a)"
      with cur have "p = (key, HRef ?a) \<or> (a \<in> own \<and> p \<in> set (cells s a))"
        by (auto split: if_splits dest: set_update_cases)
      with "3.prems" show "refs (snd p) \<subseteq> ?own1" by (auto simp: owned_closed_def)
    qed
    have v1: "refs new_value \<subseteq> ?own1" using "3.prems"(3) by auto
    have in1: "fst (new_dict s) \<in> ?own1" by (simp add: new_dict_simps)
    from "3.IH"(1) [OF None in1, unfolded new_dict_simps(1), OF closed1 v1]
    have ih: "next_free ?s1 \<le> next_free ?s'"
      "owned_closed ?s' (?own1 \<union> {next_free ?s1..<next_free ?s'})"
      "\<forall>a. a \<notin> ?own1 \<and> a < next_free ?s1 \<longrightarrow> cells ?s' a = cells ?s1 a"
      by auto
    have n1: "next_free ?s1 = Suc (next_free s)" by (simp add: setitem_simps new_dict_simps)
    from ih(1) n1 have grow: "Suc (next_free s) \<le> next_free ?s'" by simp
    then have sets: "?own1 \<union> {next_free ?s1..<next_free ?s'} = own \<union> {next_free s..<next_free ?s'}"
      unfolding n1 by auto
    have same: "cells ?s' a = cells s a" if "a \<notin> own" "a < next_free s" for a
    proof -
      from that "3.prems"(1) have "a \<noteq> current" "a \<noteq> ?a" by auto
      with that ih(3) n1 show ?thesis by (simp add: setitem_simps new_dict_simps)
    qed
    from grow ih(2) same show ?thesis unfolding step sets by auto
  qed
qed


lemma owned_closed_mono_store:
  assumes "owned_closed s own" and "\<forall>a \<in> own. cells s' a = cells s a"
    and "next_free s \<le> next_free s'"
  shows "owned_closed s' own"
  using assms unfolding owned_closed_def by auto

lemma h_set_path_root:
  assumes "keys \<noteq> []" and "hd keys \<notin> pinned" and "root_ok s hv pinned own"
    and "owned_closed s own" and "refs v \<subseteq> own"
  shows "next_free s \<le> next_free (h_set_path keys v hv s) \<and>
     owned_closed (h_set_path keys v hv s) (own \<union> {next_free s..<next_free (h_set_path keys v hv s)}) \<and>
     root_ok (h_set_path keys v hv s) hv pinned
       (own \<union> {next_free s..<next_free (h_set_path keys v hv s)}) \<and>
     (\<forall>a. a \<notin> own \<and> a \<noteq> hv \<and> a < next_free s \<longrightarrow>
        cells (h_set_path keys v hv s) a = cells s a)"
proof -
  from assms(3) have hv: "hv < next_free s" "hv \<notin> own"
    and pairs: "\<And>p. p \<in> set (cells s hv) \<Longrightarrow> fst p \<in> pinned \<or> refs (snd p) \<subseteq> own"
    by (auto simp: root_ok_def)
  from assms(1) obtain key rest where keys: "keys = key # rest" by (cases keys) auto
  with assms(2) have key: "key \<notin> pinned" by simp
  show ?thesis
  proof (cases rest)
    case Nil
    have "owned_closed (setitem hv key v s) own"
      by (rule owned_closed_mono_store [OF assms(4)]) (use hv in \<open>auto simp: setitem_simps\<close>)
    moreover have "root_ok (setitem hv key v s) hv pinned own"
      unfolding root_ok_def setitem_simps using hv assms(5) pairs
      by (auto dest!: set_update_cases)
    ultimately show ?thesis using keys Nil by (auto simp: setitem_simps)
  next
    case (Cons k2 ks)
    show ?thesis
    proof (cases "sub_dict s hv key")
      case (Some a)
      let ?s' = "h_set_path (k2 # ks) v a s"
      let ?own' = "own \<union> {next_free s..<next_free ?s'}"
      from Some have step: "h_set_path keys v hv s = ?s'" by (simp add: keys Cons)
      from Some have "(key, HRef a) \<in> set (cells s hv)" by (rule sub_dict_Some)
      with pairs [of "(key, HRef a)"] key have a: "a \<in> own" by auto
      from h_set_path_frame [OF a assms(4,5), of "k2 # ks"]
      have f: "next_free s \<le> next_free ?s'" "owned_closed ?s' ?own'"
        "\<forall>a. a \<notin> own \<and> a < next_free s \<longrightarrow> cells ?s' a = cells s a" by auto
      from f(3) hv have same: "cells ?s' hv = cells s hv" by simp
      have "root_ok ?s' hv pinned ?own'"
        unfolding root_ok_def same using hv f(1) pairs by auto
      with f show ?thesis unfolding step by auto
    next
      case None
      let ?a = "next_free s"
      let ?s1 = "setitem hv key (HRef ?a) (snd (new_dict s))"
      let ?own1 = "own \<union> {?a}"
      let ?s' = "h_set_path (k2 # ks) v ?a ?s1"
      let ?own' = "own \<union> {next_free s..<next_free ?s'}"
      from None have step: "h_set_path keys v hv s = ?s'"
        by (simp add: keys Cons new_dict_simps)
      have n1: "next_free ?s1 = Suc (next_free s)" by (simp add: setitem_simps new_dict_simps)
      have closed1: "owned_closed ?s1 ?own1"
        unfolding owned_closed_def
      proof (intro ballI conjI)
        fix a assume "a \<in> ?own1"
        with assms(4) show "a < next_free ?s1" unfolding n1 by (auto simp: owned_closed_def less_Suc_eq)
      next
        fix a p
        assume a: "a \<in> ?own1" and p: "p \<in> set (cells ?s1 a)"
        with hv have "a \<in> own \<and> p \<in> set (cells s a)"
          by (auto simp: setitem_simps new_dict_simps split: if_splits)
        with assms(4) show "refs (snd p) \<subseteq> ?own1" by (auto simp: owned_closed_def)
      qed
      have "refs v \<subseteq> ?own1" using assms(5) by auto
      from h_set_path_frame [of ?a ?own1 ?s1 v "k2 # ks", OF _ closed1 this]
      have f: "next_free ?s1 \<le> next_free ?s'"
        "owned_closed ?s' (?own1 \<union> {next_free ?s1..<next_free ?s'})"
        "\<forall>a. a \<notin> ?own1 \<and> a < next_free ?s1 \<longrightarrow> cells ?s' a = cells ?s1 a" by auto
      from f(1) n1 have grow: "Suc (next_free s) \<le> next_free ?s'" by simp
      then have sets: "?own1 \<union> {next_free ?s1..<next_free ?s'} = ?own'" unfolding n1 by auto
      from f(3) hv n1 have same_hv: "cells ?s' hv = cells ?s1 hv" by simp
      have "root_ok ?s' hv pinned ?own'"
        unfolding root_ok_def same_hv using hv grow pairs
        by (auto simp: setitem_simps new_dict_simps dest!: set_update_cases)
      moreover have "cells ?s' a = cells s a" if "a \<notin> own" "a \<noteq> hv" "a < next_free s" for a
        using that f(3) n1 by (simp add: setitem_simps new_dict_simps)
      ultimately show ?thesis using grow f(2) unfolding step sets by auto
    qed
  qed
qed

lemma h_seed_top_frame:
  assumes "h_seed_top n tv key hv s = Some s'"
    and "root_ok s hv pinned own" and "owned_closed s own"
  shows "next_free s \<le> next_free s' \<and>
     owned_closed s' (own \<union> {next_free s..<next_free s'}) \<and>
     root_ok s' hv pinned (own \<union> {next_free s..<next_free s'}) \<and>
     (\<forall>a. a \<noteq> hv \<and> a < next_free s \<longrightarrow> cells s' a = cells s a)"
proof (cases "map_of (cells s hv) key = None \<and> map_of (cells s tv) key \<noteq> None")
  case False
  with assms(1) have "s' = s" by (auto simp: h_seed_top_def)
  with assms(2,3) show ?thesis
    by (auto simp: root_ok_def owned_closed_def)
next
  case True
  from assms(2) have hv: "hv < next_free s" "hv \<notin> own"
    and pairs: "\<And>p. p \<in> set (cells s hv) \<Longrightarrow> fst p \<in> pinned \<or> refs (snd p) \<subseteq> own"
    by (auto simp: root_ok_def)
  let ?lo = "next_free s"
  from True assms(1) obtain r where
    copy: "deepcopy n (the (map_of (cells s tv) key)) s = Some r"
    and s': "s' = setitem hv key (fst r) (snd r)"
    by (auto simp: h_seed_top_def split: option.splits)
  have "region_closed ?lo s" by (simp add: region_closed_def)
  from deepcopy_frame(1) [OF copy _ this]
  have f: "?lo \<le> next_free (snd r)" "\<forall>a<?lo. cells (snd r) a = cells s a"
    "region_closed ?lo (snd r)" "refs (fst r) \<subseteq> {?lo..<next_free (snd r)}" by auto
  let ?own' = "own \<union> {?lo..<next_free s'}"
  have n': "next_free s' = next_free (snd r)" by (simp add: s' setitem_simps)
  have closed: "owned_closed s' ?own'"
    unfolding owned_closed_def
  proof (intro ballI conjI)
    fix a assume "a \<in> ?own'"
    with assms(3) f(1) show "a < next_free s'" unfolding n' by (auto simp: owned_closed_def)
  next
    fix a p
    assume a: "a \<in> ?own'" and p: "p \<in> set (cells s' a)"
    from a hv have "a \<noteq> hv" by auto
    with p have p': "p \<in> set (cells (snd r) a)" by (simp add: s' setitem_simps)
    show "refs (snd p) \<subseteq> ?own'"
    proof (cases "a \<in> own")
      case True
      with assms(3) have "a < ?lo" by (simp add: owned_closed_def)
      with f(2) p' have "p \<in> set (cells s a)" by simp
      with True assms(3) show ?thesis by (auto simp: owned_closed_def)
    next
      case False
      with a have "?lo \<le> a" "a < next_free (snd r)" unfolding n' by auto
      with f(3) p' have "refs (snd p) \<subseteq> {?lo..<next_free (snd r)}"
        unfolding region_closed_def by blast
      then show ?thesis unfolding n' by auto
    qed
  qed
  have "cells s' hv = AList.update key (fst r) (cells s hv)"
    using f(2) hv by (simp add: s' setitem_simps)
  then have "root_ok s' hv pinned ?own'"
    unfolding root_ok_def n' using hv f(1,4) pairs
    by (auto dest!: set_update_cases)
  moreover have "cells s' a = cells s a" if "a \<noteq> hv" "a < next_free s" for a
    using that f(2) by (simp add: s' setitem_simps)
  ultimately show ?thesis using closed f(1) n' by auto
qed


lemma h_apply_literal_inv:
  assumes "h_apply_literal n tv ev item hv s = Some s'"
    and "target_inv s hv ev own" and "refs (snd item) \<subseteq> own"
  shows "\<exists>own'. own \<subseteq> own' \<and> own' \<subseteq> own \<union> {next_free s..} \<and> target_inv s' hv ev own' \<and>
     next_free s \<le> next_free s' \<and>
     (\<forall>a. a \<notin> own \<and> a \<noteq> hv \<and> a < next_free s \<longrightarrow> cells s' a = cells s a)"
proof (cases "map_of (cells s ev) (hd (split_dot (fst item))) \<noteq> None")
  case True
  with assms(1) have "s' = s" by (simp add: h_apply_literal_def Let_def)
  with assms(2) show ?thesis by (intro exI [of _ own]) auto
next
  case False
  let ?keys = "split_dot (fst item)"
  let ?pinned = "fst ` set (cells s ev)"
  from False have key: "hd ?keys \<notin> ?pinned" by (simp add: map_of_eq_None_iff)
  from assms(2) have closed: "owned_closed s own" and root: "root_ok s hv ?pinned own"
    and ev: "ev < next_free s" "ev \<noteq> hv" "ev \<notin> own"
    by (auto simp: target_inv_def)
  from False assms(1) obtain s1 where
    seed: "h_seed_top n tv (hd ?keys) hv s = Some s1"
    and s': "s' = h_set_path ?keys (snd item) hv s1"
    by (auto simp: h_apply_literal_def Let_def split: option.splits)
  let ?own1 = "own \<union> {next_free s..<next_free s1}"
  from h_seed_top_frame [OF seed root closed]
  have f1: "next_free s \<le> next_free s1" "owned_closed s1 ?own1" "root_ok s1 hv ?pinned ?own1"
    "\<forall>a. a \<noteq> hv \<and> a < next_free s \<longrightarrow> cells s1 a = cells s a" by auto
  have v1: "refs (snd item) \<subseteq> ?own1" using assms(3) by auto
  let ?own2 = "?own1 \<union> {next_free s1..<next_free s'}"
  from h_set_path_root [OF split_dot_nonempty key f1(3,2) v1]
  have f2: "next_free s1 \<le> next_free s'" "owned_closed s' ?own2" "root_ok s' hv ?pinned ?own2"
    "\<forall>a. a \<notin> ?own1 \<and> a \<noteq> hv \<and> a < next_free s1 \<longrightarrow> cells s' a = cells s1 a"
    unfolding s' by auto
  have same: "cells s' a = cells s a" if "a \<notin> own" "a \<noteq> hv" "a < next_free s" for a
    using that f1(1,4) f2(4) by auto
  from same [of ev] ev have "cells s' ev = cells s ev" by simp
  with f2(2,3) ev f1(1) f2(1) have "target_inv s' hv ev ?own2"
    by (auto simp: target_inv_def)
  moreover have "own \<subseteq> ?own2" "?own2 \<subseteq> own \<union> {next_free s..}"
    using f1(1) by auto
  ultimately show ?thesis using same f1(1) f2(1)
    by (intro exI [of _ ?own2]) auto
qed

lemma copy_dict_simps:
  "fst (copy_dict x s) = next_free s"
  "next_free (snd (copy_dict x s)) = Suc (next_free s)"
  "cells (snd (copy_dict x s)) a = (if a = next_free s then cells s x else cells s a)"
  by (simp_all add: copy_dict_def)

lemma merge_pair_Some:
  "merge_pair s r key y_value = Some ab \<Longrightarrow>
     (key, HRef (fst ab)) \<in> set (cells s r) \<and> y_value = HRef (snd ab)"
  by (auto simp: merge_pair_def split: option.splits hval.splits dest: map_of_SomeD)

lemma h_merge_inv:
  "h_merge n x y s = Some rm \<Longrightarrow> owned_closed s own \<Longrightarrow>
   \<forall>p \<in> set (cells s x). refs (snd p) \<subseteq> own \<Longrightarrow> \<forall>p \<in> set (cells s y). refs (snd p) \<subseteq> own \<Longrightarrow>
     fst rm = next_free s \<and> next_free s < next_free (snd rm) \<and>
     (\<forall>a<next_free s. cells (snd rm) a = cells s a) \<and>
     owned_closed (snd rm) (own \<union> {Suc (next_free s)..<next_free (snd rm)}) \<and>
     (\<forall>p \<in> set (cells (snd rm) (next_free s)).
        refs (snd p) \<subseteq> own \<union> {Suc (next_free s)..<next_free (snd rm)})"
  "h_merge_items n items r s = Some s' \<Longrightarrow> owned_closed s own \<Longrightarrow> r < next_free s \<Longrightarrow>
   r \<notin> own \<Longrightarrow> \<forall>p \<in> set items. refs (snd p) \<subseteq> own \<Longrightarrow>
   \<forall>p \<in> set (cells s r). refs (snd p) \<subseteq> own \<Longrightarrow>
     next_free s \<le> next_free s' \<and>
     (\<forall>a<next_free s. a \<noteq> r \<longrightarrow> cells s' a = cells s a) \<and>
     owned_closed s' (own \<union> {next_free s..<next_free s'}) \<and>
     (\<forall>p \<in> set (cells s' r). refs (snd p) \<subseteq> own \<union> {next_free s..<next_free s'})"
proof (induction n x y s and n items r s arbitrary: rm own and s' own
    rule: h_merge_h_merge_items.induct)
  case (1 x y s)
  then show ?case by simp
next
  case (2 n x y s)
  let ?r = "next_free s"
  let ?s0 = "snd (copy_dict x s)"
  from "2.prems"(1) obtain s' where
    items: "h_merge_items n (cells s y) ?r ?s0 = Some s'" and rm: "rm = (?r, s')"
    by (auto simp: copy_dict_simps split: option.splits)
  from "2.prems"(2) have below: "\<forall>a \<in> own. a < ?r" by (simp add: owned_closed_def)
  then have r: "?r \<notin> own" by auto
  have c0: "owned_closed ?s0 own"
    by (rule owned_closed_mono_store [OF "2.prems"(2)]) (use below in \<open>auto simp: copy_dict_simps\<close>)
  have "next_free ?s0 \<le> next_free s' \<and>
     (\<forall>a<next_free ?s0. a \<noteq> ?r \<longrightarrow> cells s' a = cells ?s0 a) \<and>
     owned_closed s' (own \<union> {next_free ?s0..<next_free s'}) \<and>
     (\<forall>p \<in> set (cells s' ?r). refs (snd p) \<subseteq> own \<union> {next_free ?s0..<next_free s'})"
    using "2.IH" [unfolded copy_dict_simps(1), OF items c0 _ r] "2.prems"(3,4)
    by (simp add: copy_dict_simps)
  with rm show ?case by (auto simp: copy_dict_simps)
next
  case (3 n r s)
  then show ?case by (auto simp: owned_closed_def)
next
  case (4 n key y_value items r s)
  show ?case
  proof (cases "merge_pair s r key y_value")
    case None
    let ?s1 = "setitem r key y_value s"
    from None "4.prems"(1) have rest: "h_merge_items n items r ?s1 = Some s'" by simp
    have c1: "owned_closed ?s1 own"
      by (rule owned_closed_mono_store [OF "4.prems"(2)])
         (use "4.prems"(4) in \<open>auto simp: setitem_simps\<close>)
    have root: "\<forall>p \<in> set (cells ?s1 r). refs (snd p) \<subseteq> own"
      using "4.prems"(5,6) by (auto simp: setitem_simps dest!: set_update_cases)
    from "4.IH"(1) [OF None rest c1 _ "4.prems"(4) _ root] "4.prems"(3,5)
    show ?thesis by (auto simp: setitem_simps)
  next
    case (Some ab)
    let ?m = "next_free s"
    from merge_pair_Some [OF Some] have a: "(key, HRef (fst ab)) \<in> set (cells s r)"
      and b: "y_value = HRef (snd ab)" by auto
    from a "4.prems"(6) have a_own: "fst ab \<in> own" by force
    from b "4.prems"(5) have b_own: "snd ab \<in> own" by simp
    from Some "4.prems"(1) obtain m where
      sub: "h_merge n (fst ab) (snd ab) s = Some m"
      and rest: "h_merge_items n items r (setitem r key (HRef (fst m)) (snd m)) = Some s'"
      by (auto split: option.splits)
    from a_own b_own "4.prems"(2)
    have ra: "\<forall>p \<in> set (cells s (fst ab)). refs (snd p) \<subseteq> own"
      and rb: "\<forall>p \<in> set (cells s (snd ab)). refs (snd p) \<subseteq> own"
      by (auto simp: owned_closed_def)
    from "4.IH"(2) [OF Some sub "4.prems"(2) ra rb]
    have f: "fst m = ?m" "?m < next_free (snd m)" "\<forall>a<?m. cells (snd m) a = cells s a"
      "owned_closed (snd m) (own \<union> {Suc ?m..<next_free (snd m)})"
      "\<forall>p \<in> set (cells (snd m) ?m). refs (snd p) \<subseteq> own \<union> {Suc ?m..<next_free (snd m)}"
      by auto
    let ?own1 = "own \<union> {?m..<next_free (snd m)}"
    have eq1: "?own1 = insert ?m (own \<union> {Suc ?m..<next_free (snd m)})"
      using f(2) by auto
    have c1: "owned_closed (snd m) ?own1"
      unfolding eq1 using f(2,4,5) unfolding owned_closed_def by auto
    let ?s2 = "setitem r key (HRef ?m) (snd m)"
    from "4.prems"(3,4) have r1: "r \<notin> ?own1" by auto
    have c2: "owned_closed ?s2 ?own1"
      by (rule owned_closed_mono_store [OF c1]) (use r1 in \<open>auto simp: setitem_simps\<close>)
    have r2: "r < next_free ?s2" using "4.prems"(3) f(2) by (simp add: setitem_simps)
    have items: "\<forall>p \<in> set items. refs (snd p) \<subseteq> ?own1" using "4.prems"(5) by auto
    from f(3) "4.prems"(3) have same_r: "cells (snd m) r = cells s r" by simp
    have root: "\<forall>p \<in> set (cells ?s2 r). refs (snd p) \<subseteq> ?own1"
      using "4.prems"(6) f(2) by (auto simp: setitem_simps same_r dest!: set_update_cases)
    from rest f(1) have rest': "h_merge_items n items r ?s2 = Some s'" by simp
    from "4.IH"(3) [OF Some sub, unfolded f(1), OF rest' c2 r2 r1 items root]
    have g: "next_free ?s2 \<le> next_free s'"
      "\<forall>a<next_free ?s2. a \<noteq> r \<longrightarrow> cells s' a = cells ?s2 a"
      "owned_closed s' (?own1 \<union> {next_free ?s2..<next_free s'})"
      "\<forall>p \<in> set (cells s' r). refs (snd p) \<subseteq> ?own1 \<union> {next_free ?s2..<next_free s'}"
      by auto
    have n2: "next_free ?s2 = next_free (snd m)" by (simp add: setitem_simps)
    have sets: "?own1 \<union> {next_free (snd m)..<next_free s'} = own \<union> {?m..<next_free s'}"
      using f(2) g(1) unfolding n2 by auto
    have same: "cells s' a = cells s a" if "a < ?m" "a \<noteq> r" for a
      using that g(2) f(2,3) unfolding n2 by (simp add: setitem_simps)
    from g(3,4) have "owned_closed s' (own \<union> {?m..<next_free s'})"
      and "\<forall>p \<in> set (cells s' r). refs (snd p) \<subseteq> own \<union> {?m..<next_free s'}"
      unfolding n2 sets by blast+
    moreover from g(1) f(2) have "next_free s \<le> next_free s'" unfolding n2 by simp
    ultimately show ?thesis using same by blast
  qed
qed

lemma h_preseed_inv:
  "h_preseed n tv ks hv orig s = Some s' \<Longrightarrow> files_inv s hv orig own \<Longrightarrow>
   \<exists>own'. own \<subseteq> own' \<and> own' \<subseteq> own \<union> {next_free s..} \<and> files_inv s' hv orig own' \<and>
     next_free s \<le> next_free s' \<and>
     (\<forall>a. a \<noteq> hv \<and> a \<noteq> orig \<and> a < next_free s \<longrightarrow> cells s' a = cells s a)"
proof (induction ks arbitrary: s own)
  case Nil
  then show ?case by (intro exI [of _ own]) auto
next
  case (Cons k ks)
  show ?case
  proof (cases "map_of (cells s hv) k = None \<and> map_of (cells s tv) k \<noteq> None")
    case False
    with Cons.prems(1) have "h_preseed n tv ks hv orig s = Some s'" by auto
    from Cons.IH [OF this Cons.prems(2)] show ?thesis .
  next
    case True
    from Cons.prems(2) have closed: "owned_closed s own" and root: "root_ok s hv {} own"
      and orig: "orig < next_free s" "orig \<notin> own" "orig \<noteq> hv"
      by (auto simp: files_inv_def)
    let ?s0 = "setitem orig k (the (map_of (cells s tv) k)) s"
    from True Cons.prems(1) obtain r where
      copy: "deepcopy n (the (map_of (cells ?s0 tv) k)) ?s0 = Some r"
      and rest: "h_preseed n tv ks hv orig (setitem hv k (fst r) (snd r)) = Some s'"
      by (auto split: option.splits)
    let ?s1 = "setitem hv k (fst r) (snd r)"
    have cond0: "map_of (cells ?s0 hv) k = None \<and> map_of (cells ?s0 tv) k \<noteq> None"
      using True orig(3) by (auto simp: setitem_simps update_conv')
    with copy have seed: "h_seed_top n tv k hv ?s0 = Some ?s1"
      by (simp add: h_seed_top_def)
    have closed0: "owned_closed ?s0 own"
      by (rule owned_closed_mono_store [OF closed]) (use orig in \<open>auto simp: setitem_simps\<close>)
    have root0: "root_ok ?s0 hv {} own"
      using root orig(3) by (simp add: root_ok_def setitem_simps)
    let ?own1 = "own \<union> {next_free ?s0..<next_free ?s1}"
    from h_seed_top_frame [OF seed root0 closed0]
    have f: "next_free ?s0 \<le> next_free ?s1" "owned_closed ?s1 ?own1" "root_ok ?s1 hv {} ?own1"
      "\<forall>a. a \<noteq> hv \<and> a < next_free ?s0 \<longrightarrow> cells ?s1 a = cells ?s0 a" by auto
    have n0: "next_free ?s0 = next_free s" by (simp add: setitem_simps)
    have inv1: "files_inv ?s1 hv orig ?own1"
      using f(1-3) orig unfolding files_inv_def n0 by auto
    from Cons.IH [OF rest inv1] obtain own' where
      o: "?own1 \<subseteq> own'" "own' \<subseteq> ?own1 \<union> {next_free ?s1..}" "files_inv s' hv orig own'"
        "next_free ?s1 \<le> next_free s'"
        "\<forall>a. a \<noteq> hv \<and> a \<noteq> orig \<and> a < next_free ?s1 \<longrightarrow> cells s' a = cells ?s1 a"
      by blast
    have "cells s' a = cells s a" if "a \<noteq> hv" "a \<noteq> orig" "a < next_free s" for a
      using that o(5) f(1,4) unfolding n0 by (simp add: setitem_simps)
    moreover have "own \<subseteq> own'" using o(1) by auto
    moreover have "own' \<subseteq> own \<union> {next_free s..}" using o(2) f(1) unfolding n0 by auto
    moreover have "next_free s \<le> next_free s'" using o(4) f(1) unfolding n0 by simp
    ultimately show ?thesis using o(3) by (intro exI [of _ own']) blast
  qed
qed

lemma h_load_files_inv:
  "h_load_files n tv ys hv orig s = Some r \<Longrightarrow> files_inv s hv orig own \<Longrightarrow> set ys \<subseteq> own \<Longrightarrow>
   \<exists>own'. own \<subseteq> own' \<and> own' \<subseteq> own \<union> {next_free s..} \<and> files_inv (snd r) (fst r) orig own' \<and>
     next_free s \<le> next_free (snd r) \<and> (fst r = hv \<or> next_free s \<le> fst r) \<and>
     (\<forall>a. a \<noteq> hv \<and> a \<noteq> orig \<and> a < next_free s \<longrightarrow> cells (snd r) a = cells s a)"
proof (induction ys arbitrary: hv s own)
  case Nil
  then show ?case by (intro exI [of _ own]) auto
next
  case (Cons y ys)
  from Cons.prems(1) obtain s1 m where
    pre: "h_preseed n tv (map fst (cells s y)) hv orig s = Some s1"
    and mer: "h_merge n hv y s1 = Some m"
    and rest: "h_load_files n tv ys (fst m) orig (snd m) = Some r"
    by (auto split: option.splits)
  from h_preseed_inv [OF pre Cons.prems(2)] obtain own1 where
    o1: "own \<subseteq> own1" "own1 \<subseteq> own \<union> {next_free s..}" "files_inv s1 hv orig own1"
      "next_free s \<le> next_free s1"
      "\<forall>a. a \<noteq> hv \<and> a \<noteq> orig \<and> a < next_free s \<longrightarrow> cells s1 a = cells s a"
    by blast
  from o1(3) have closed1: "owned_closed s1 own1" and root1: "root_ok s1 hv {} own1"
    and orig: "orig < next_free s1" "orig \<notin> own1" "orig \<noteq> hv"
    by (auto simp: files_inv_def)
  from root1 have x: "\<forall>p \<in> set (cells s1 hv). refs (snd p) \<subseteq> own1" by (simp add: root_ok_def)
  from Cons.prems(3) o1(1) have "y \<in> own1" by auto
  with closed1 have yv: "\<forall>p \<in> set (cells s1 y). refs (snd p) \<subseteq> own1" by (simp add: owned_closed_def)
  let ?r0 = "next_free s1"
  let ?own2 = "own1 \<union> {Suc ?r0..<next_free (snd m)}"
  from h_merge_inv(1) [OF mer closed1 x yv]
  have f: "fst m = ?r0" "?r0 < next_free (snd m)" "\<forall>a<?r0. cells (snd m) a = cells s1 a"
    "owned_closed (snd m) ?own2" "\<forall>p \<in> set (cells (snd m) ?r0). refs (snd p) \<subseteq> ?own2"
    by auto
  from closed1 have below: "\<forall>a \<in> own1. a < ?r0" by (simp add: owned_closed_def)
  have inv2: "files_inv (snd m) (fst m) orig ?own2"
    unfolding files_inv_def root_ok_def f(1) using f(2,4,5) orig below by auto
  from Cons.prems(3) o1(1) have ys: "set ys \<subseteq> ?own2" by auto
  from Cons.IH [OF rest inv2 ys] obtain own' where
    o: "?own2 \<subseteq> own'" "own' \<subseteq> ?own2 \<union> {next_free (snd m)..}" "files_inv (snd r) (fst r) orig own'"
      "next_free (snd m) \<le> next_free (snd r)" "fst r = fst m \<or> next_free (snd m) \<le> fst r"
      "\<forall>a. a \<noteq> fst m \<and> a \<noteq> orig \<and> a < next_free (snd m) \<longrightarrow> cells (snd r) a = cells (snd m) a"
    by blast
  have "cells (snd r) a = cells s a" if "a \<noteq> hv" "a \<noteq> orig" "a < next_free s" for a
    using that o(6) f(1,2,3) o1(4,5) by simp
  moreover have "own \<subseteq> own'" using o(1) o1(1) by auto
  moreover have "own' \<subseteq> own \<union> {next_free s..}" using o(2) o1(2,4) f(2) by auto
  moreover have "next_free s \<le> next_free (snd r)" using o(4) f(2) o1(4) by simp
  moreover have "fst r = hv \<or> next_free s \<le> fst r" using o(5) f(1,2) o1(4) by auto
  ultimately show ?case using o(3) by (intro exI [of _ own']) blast
qed

lemma fold_protect:
  "set ks \<subseteq> pinned \<Longrightarrow> root_ok s hv pinned own \<Longrightarrow>
   next_free (fold (\<lambda>k s'. setitem hv k (f s' k) s') ks s) = next_free s \<and>
   (\<forall>a. a \<noteq> hv \<longrightarrow> cells (fold (\<lambda>k s'. setitem hv k (f s' k) s') ks s) a = cells s a) \<and>
   root_ok (fold (\<lambda>k s'. setitem hv k (f s' k) s') ks s) hv pinned own"
proof (induction ks arbitrary: s)
  case Nil
  then show ?case by simp
next
  case (Cons k ks)
  let ?s1 = "setitem hv k (f s k) s"
  from Cons.prems have "root_ok ?s1 hv pinned own"
    by (auto simp: root_ok_def setitem_simps dest!: set_update_cases)
  from Cons.IH [OF _ this] Cons.prems(1) show ?case by (simp add: setitem_simps)
qed

lemma h_protect_inv:
  assumes "root_ok s hv {} own"
  shows "next_free (h_protect ev hv s) = next_free s \<and>
     (\<forall>a. a \<noteq> hv \<longrightarrow> cells (h_protect ev hv s) a = cells s a) \<and>
     root_ok (h_protect ev hv s) hv (fst ` set (cells s ev)) own"
proof -
  have "set (filter (\<lambda>k. map_of (cells s ev) k \<noteq> None) (map fst (cells s hv)))
      \<subseteq> fst ` set (cells s ev)"
    by (auto simp: map_of_eq_None_iff)
  moreover from assms have "root_ok s hv (fst ` set (cells s ev)) own"
    by (auto simp: root_ok_def)
  ultimately show ?thesis
    unfolding h_protect_def by (rule fold_protect)
qed

lemma h_apply_literals_inv:
  "h_apply_literals n tv ev items hv s = Some s' \<Longrightarrow> target_inv s hv ev own \<Longrightarrow>
   list_all (\<lambda>item. refs (snd item) \<subseteq> own) items \<Longrightarrow>
   \<exists>own'. own \<subseteq> own' \<and> own' \<subseteq> own \<union> {next_free s..} \<and> target_inv s' hv ev own' \<and>
     next_free s \<le> next_free s' \<and>
     (\<forall>a. a \<notin> own \<and> a \<noteq> hv \<and> a < next_free s \<longrightarrow> cells s' a = cells s a)"
proof (induction items arbitrary: s own)
  case Nil
  then show ?case by (intro exI [of _ own]) auto
next
  case (Cons item items)
  from Cons.prems(1) obtain s1 where
    one: "h_apply_literal n tv ev item hv s = Some s1"
    and rest: "h_apply_literals n tv ev items hv s1 = Some s'"
    by (auto split: option.splits)
  from Cons.prems(3) have v: "refs (snd item) \<subseteq> own" by simp
  from h_apply_literal_inv [OF one Cons.prems(2) v] obtain own1 where
    o: "own \<subseteq> own1" "own1 \<subseteq> own \<union> {next_free s..}" "target_inv s1 hv ev own1"
      "next_free s \<le> next_free s1"
      "\<forall>a. a \<notin> own \<and> a \<noteq> hv \<and> a < next_free s \<longrightarrow> cells s1 a = cells s a"
    by blast
  from Cons.prems(3) o(1) have vs: "list_all (\<lambda>item. refs (snd item) \<subseteq> own1) items"
    by (auto simp: list_all_iff)
  from Cons.IH [OF rest o(3) vs] obtain own' where
    p: "own1 \<subseteq> own'" "own' \<subseteq> own1 \<union> {next_free s1..}" "target_inv s' hv ev own'"
      "next_free s1 \<le> next_free s'"
      "\<forall>a. a \<notin> own1 \<and> a \<noteq> hv \<and> a < next_free s1 \<longrightarrow> cells s' a = cells s1 a"
    by blast
  have "cells s' a = cells s a" if "a \<notin> own" "a \<noteq> hv" "a < next_free s" for a
  proof -
    from that o(2) have "a \<notin> own1" by auto
    with that p(5) o(4,5) show ?thesis by simp
  qed
  moreover have "own \<subseteq> own'" using o(1) p(1) by auto
  moreover have "own' \<subseteq> own \<union> {next_free s..}" using o(2,4) p(2) by auto
  moreover have "next_free s \<le> next_free s'" using o(4) p(4) by simp
  ultimately show ?case using p(3) by (intro exI [of _ own']) blast
qed

lemma h_literals_phase_inv:
  assumes "h_literals_phase n tv ev lits hv s = Some r" and "target_inv s hv ev own"
    and "list_all (\<lambda>item. refs (snd item) \<subseteq> own) (case lits of None \<Rightarrow> [] | Some items \<Rightarrow> items)"
  shows "\<exists>own'. own \<subseteq> own' \<and> own' \<subseteq> own \<union> {next_free s..} \<and> target_inv (snd r) hv ev own' \<and>
     fst r = hv \<and> next_free s \<le> next_free (snd r) \<and>
     (\<forall>a. a \<notin> own \<and> a \<noteq> hv \<and> a < next_free s \<longrightarrow> cells (snd r) a = cells s a)"
proof (cases lits)
  case None
  with assms(1) have "r = (hv, s)" by (simp add: h_literals_phase_def)
  with assms(2) show ?thesis by (intro exI [of _ own]) auto
next
  case (Some items)
  with assms(1) obtain s' where
    app: "h_apply_literals n tv ev items hv s = Some s'" and r: "r = (hv, s')"
    by (auto simp: h_literals_phase_def split: option.splits)
  from assms(3) Some have "list_all (\<lambda>item. refs (snd item) \<subseteq> own) items" by simp
  from h_apply_literals_inv [OF app assms(2) this] r show ?thesis by simp
qed

lemma h_run_inv:
  assumes run: "h_run n tv ev loaded_files raised lits s = Some r"
    and closed: "owned_closed s own" and ev: "ev < next_free s" "ev \<notin> own"
    and loaded: "set (case loaded_files of None \<Rightarrow> [] | Some ys \<Rightarrow> ys) \<subseteq> own"
    and vals: "list_all (\<lambda>item. refs (snd item) \<subseteq> own)
        (case lits of None \<Rightarrow> [] | Some items \<Rightarrow> items)"
  shows "\<exists>own'. own \<subseteq> own' \<and> own' \<subseteq> own \<union> {next_free s..} \<and>
     root_ok (snd r) (fst r) (fst ` set (cells s ev)) own' \<and> next_free s \<le> fst r \<and>
     (\<forall>a. a \<notin> own \<and> a < next_free s \<longrightarrow> cells (snd r) a = cells s a)"
proof -
  let ?hv = "next_free s"
  let ?s0 = "snd (new_dict s)"
  from closed have below: "\<forall>a \<in> own. a < ?hv" by (simp add: owned_closed_def)
  have closed0: "owned_closed ?s0 own"
    by (rule owned_closed_mono_store [OF closed]) (use below in \<open>auto simp: new_dict_simps\<close>)
  have ev0: "cells ?s0 ev = cells s ev" using ev(1) by (simp add: new_dict_simps)
  show ?thesis
  proof (cases loaded_files)
    case None
    with run have lit: "h_literals_phase n tv ev lits ?hv ?s0 = Some r"
      by (simp add: h_run_def Let_def new_dict_simps)
    have inv0: "target_inv ?s0 ?hv ev own"
      unfolding target_inv_def root_ok_def using closed0 ev below by (auto simp: new_dict_simps)
    from h_literals_phase_inv [OF lit inv0 vals] obtain own' where
      o: "own \<subseteq> own'" "own' \<subseteq> own \<union> {next_free ?s0..}" "target_inv (snd r) ?hv ev own'"
        "fst r = ?hv" "next_free ?s0 \<le> next_free (snd r)"
        "\<forall>a. a \<notin> own \<and> a \<noteq> ?hv \<and> a < next_free ?s0 \<longrightarrow> cells (snd r) a = cells ?s0 a"
      by blast
    have same: "cells (snd r) a = cells s a" if "a \<notin> own" "a < next_free s" for a
      using that o(6) by (simp add: new_dict_simps)
    from same [of ev] ev have "cells (snd r) ev = cells s ev" by simp
    with o(3,4) have "root_ok (snd r) (fst r) (fst ` set (cells s ev)) own'"
      by (simp add: target_inv_def)
    moreover have "own' \<subseteq> own \<union> {next_free s..}" using o(2) by (auto simp: new_dict_simps)
    ultimately show ?thesis using o(1,4) same by (intro exI [of _ own']) auto
  next
    case (Some ys)
    let ?orig = "Suc (next_free s)"
    let ?s1 = "snd (new_dict ?s0)"
    from Some run obtain r1 where
      load: "h_load_files n tv ys ?hv ?orig ?s1 = Some r1"
      and fin: "if raised then r = r1
                else h_literals_phase n tv ev lits (fst r1) (h_protect ev (fst r1) (snd r1)) = Some r"
      by (auto simp: h_run_def Let_def new_dict_simps split: option.splits if_splits)
    have n1: "next_free ?s1 = Suc (Suc (next_free s))" by (simp add: new_dict_simps)
    have closed1: "owned_closed ?s1 own"
      by (rule owned_closed_mono_store [OF closed]) (use below in \<open>auto simp: new_dict_simps\<close>)
    have inv1: "files_inv ?s1 ?hv ?orig own"
      unfolding files_inv_def root_ok_def using closed1 below by (auto simp: new_dict_simps)
    from Some loaded have ys: "set ys \<subseteq> own" by simp
    from h_load_files_inv [OF load inv1 ys] obtain own1 where
      o1: "own \<subseteq> own1" "own1 \<subseteq> own \<union> {next_free ?s1..}" "files_inv (snd r1) (fst r1) ?orig own1"
        "next_free ?s1 \<le> next_free (snd r1)" "fst r1 = ?hv \<or> next_free ?s1 \<le> fst r1"
        "\<forall>a. a \<noteq> ?hv \<and> a \<noteq> ?orig \<and> a < next_free ?s1 \<longrightarrow> cells (snd r1) a = cells ?s1 a"
      by blast
    from o1(3) have c1: "owned_closed (snd r1) own1" and root1: "root_ok (snd r1) (fst r1) {} own1"
      by (auto simp: files_inv_def)
    have same1: "cells (snd r1) a = cells s a" if "a < next_free s" for a
      using that o1(6) by (simp add: new_dict_simps)
    from o1(5) have hv1: "next_free s \<le> fst r1" unfolding n1 by auto
    have sub1: "own1 \<subseteq> own \<union> {next_free s..}" using o1(2) unfolding n1 by auto
    show ?thesis
    proof (cases raised)
      case True
      with fin have "r = r1" by simp
      moreover from root1 have "root_ok (snd r1) (fst r1) (fst ` set (cells s ev)) own1"
        by (auto simp: root_ok_def)
      ultimately show ?thesis using o1(1) sub1 hv1 same1 by (intro exI [of _ own1]) auto
    next
      case False
      let ?s2 = "h_protect ev (fst r1) (snd r1)"
      from False fin have lit: "h_literals_phase n tv ev lits (fst r1) ?s2 = Some r" by simp
      from h_protect_inv [OF root1, of ev]
      have p: "next_free ?s2 = next_free (snd r1)"
        "\<forall>a. a \<noteq> fst r1 \<longrightarrow> cells ?s2 a = cells (snd r1) a"
        "root_ok ?s2 (fst r1) (fst ` set (cells (snd r1) ev)) own1" by auto
      from hv1 ev(1) have evhv: "ev \<noteq> fst r1" by auto
      with p(2) have ev2: "cells ?s2 ev = cells (snd r1) ev" by simp
      from root1 have notin: "fst r1 \<notin> own1" by (simp add: root_ok_def)
      have "cells ?s2 a = cells (snd r1) a" if "a \<in> own1" for a
      proof -
        from that notin have "a \<noteq> fst r1" by auto
        with p(2) show ?thesis by simp
      qed
      then have "\<forall>a \<in> own1. cells ?s2 a = cells (snd r1) a" by simp
      then have c2: "owned_closed ?s2 own1"
        by (intro owned_closed_mono_store [OF c1]) (simp_all add: p(1))
      from ev sub1 have ev1: "ev \<notin> own1" by auto
      have inv2: "target_inv ?s2 (fst r1) ev own1"
        unfolding target_inv_def ev2 using c2 p(1,3) evhv ev1 ev(1) o1(4) n1 by auto
      from vals o1(1) have vals1: "list_all (\<lambda>item. refs (snd item) \<subseteq> own1)
          (case lits of None \<Rightarrow> [] | Some items \<Rightarrow> items)"
        by (auto simp: list_all_iff)
      from h_literals_phase_inv [OF lit inv2 vals1] obtain own' where
        o: "own1 \<subseteq> own'" "own' \<subseteq> own1 \<union> {next_free ?s2..}" "target_inv (snd r) (fst r1) ev own'"
          "fst r = fst r1" "next_free ?s2 \<le> next_free (snd r)"
          "\<forall>a. a \<notin> own1 \<and> a \<noteq> fst r1 \<and> a < next_free ?s2 \<longrightarrow> cells (snd r) a = cells ?s2 a"
        by blast
      have same: "cells (snd r) a = cells s a" if "a \<notin> own" "a < next_free s" for a
      proof -
        from that sub1 have "a \<notin> own1" by auto
        moreover from that hv1 have "a \<noteq> fst r1" by auto
        moreover from that o1(4) have "a < next_free ?s2" unfolding p(1) n1 by simp
        ultimately have "cells (snd r) a = cells ?s2 a" using o(6) by simp
        with \<open>a \<noteq> fst r1\<close> p(2) same1 [OF that(2)] show ?thesis by simp
      qed
      from same [of ev] ev have "cells (snd r) ev = cells s ev" by simp
      with o(3,4) have "root_ok (snd r) (fst r) (fst ` set (cells s ev)) own'"
        by (simp add: target_inv_def)
      moreover have "own \<subseteq> own'" using o(1) o1(1) by auto
      moreover have "own' \<subseteq> own \<union> {next_free s..}" using o(2) sub1 o1(4) unfolding p(1) n1 by auto
      ultimately show ?thesis using o(4) hv1 same by (intro exI [of _ own']) auto
    qed
  qed
qed

lemma tree_of_same:
  fixes s s' :: store
  shows "closed_objects s base \<Longrightarrow> \<forall>a \<in> set base. cells s' a = cells s a \<Longrightarrow>
      refs v \<subseteq> set base \<Longrightarrow> tree_of n s' v = tree_of n s v"
    and "closed_objects s base \<Longrightarrow> \<forall>a \<in> set base. cells s' a = cells s a \<Longrightarrow>
      refs_list vs \<subseteq> set base \<Longrightarrow> trees_of n s' vs = trees_of n s vs"
    and "closed_objects s base \<Longrightarrow> \<forall>a \<in> set base. cells s' a = cells s a \<Longrightarrow>
      \<forall>p \<in> set items. refs (snd p) \<subseteq> set base \<Longrightarrow> items_of n s' items = items_of n s items"
proof (induction n s v and n s vs and n s items rule: tree_of_trees_of_items_of.induct)
  case (7 n s a)
  from "7.prems" have a: "a \<in> set base" by simp
  with "7.prems" have same: "cells s' a = cells s a" by simp
  from a "7.prems"(1) have "\<forall>p \<in> set (cells s a). refs (snd p) \<subseteq> set base"
    by (auto simp: closed_objects_def list_all_iff)
  from "7.IH" [OF "7.prems"(1,2) this] same show ?case by simp
next
  case (9 n s v vs)
  then show ?case by (auto split: option.splits)
next
  case (11 n s key v items)
  then show ?case by (auto split: option.splits)
qed auto

text \<open>
  C9. Let the store hold \<^verbatim>\<open>task_vars\<close> and the extra-vars among the objects of a closed
  list \<open>base\<close>, and let the dicts that the loader returns and the values that the templar
  returns for the literals lie in a closed list \<open>ext\<close> of objects that has no object in
  common with \<open>base\<close>. Then every run, with or without files, stopped by an exception
  of the loading loop or not, with or without literals, leaves every object of \<open>base\<close>
  as it was: \<^verbatim>\<open>task_vars\<close> and the extra-vars stand for the same trees after the run as
  before. The target is no object of \<open>base\<close>, and no value of the target holds an
  object of \<open>base\<close>, except under the keys of the extra-vars, where the run stores the
  values of the extra-vars themselves and never walks into them. The target starts as
  a new dict, a seed stores a deep copy, whose objects are new, and a merge builds new
  objects that share values with the copies and the loaded dicts only.
\<close>

theorem baseline_not_mutated:
  "h_run n tv ev loaded_files raised lits s = Some r \<and>
   closed_objects s base \<and> closed_objects s ext \<and> set base \<inter> set ext = {} \<and>
   tv \<in> set base \<and> ev \<in> set base \<and>
   list_all (\<lambda>y. y \<in> set ext) (case loaded_files of None \<Rightarrow> [] | Some ys \<Rightarrow> ys) \<and>
   list_all (\<lambda>item. refs (snd item) \<subseteq> set ext) (case lits of None \<Rightarrow> [] | Some items \<Rightarrow> items) \<longrightarrow>
     list_all (\<lambda>a. cells (snd r) a = cells s a) base \<and>
     tree_of m (snd r) (HRef tv) = tree_of m s (HRef tv) \<and>
     tree_of m (snd r) (HRef ev) = tree_of m s (HRef ev) \<and>
     fst r \<notin> set base \<and>
     list_all (\<lambda>p. map_of (cells s ev) (fst p) \<noteq> None \<or> refs (snd p) \<inter> set base = {})
       (cells (snd r) (fst r))"
proof (intro impI)
  assume h: "h_run n tv ev loaded_files raised lits s = Some r \<and>
   closed_objects s base \<and> closed_objects s ext \<and> set base \<inter> set ext = {} \<and>
   tv \<in> set base \<and> ev \<in> set base \<and>
   list_all (\<lambda>y. y \<in> set ext) (case loaded_files of None \<Rightarrow> [] | Some ys \<Rightarrow> ys) \<and>
   list_all (\<lambda>item. refs (snd item) \<subseteq> set ext) (case lits of None \<Rightarrow> [] | Some items \<Rightarrow> items)"
  then have run: "h_run n tv ev loaded_files raised lits s = Some r"
    and base: "closed_objects s base" and ext: "closed_objects s ext"
    and disj: "set base \<inter> set ext = {}" and tv: "tv \<in> set base" and ev: "ev \<in> set base"
    and vals: "list_all (\<lambda>item. refs (snd item) \<subseteq> set ext)
        (case lits of None \<Rightarrow> [] | Some items \<Rightarrow> items)"
    by blast+
  from h have loaded: "set (case loaded_files of None \<Rightarrow> [] | Some ys \<Rightarrow> ys) \<subseteq> set ext"
    by (auto simp: list_all_iff)
  from base have below: "\<forall>a \<in> set base. a < next_free s"
    by (auto simp: closed_objects_def list_all_iff)
  from ext have closed: "owned_closed s (set ext)"
    by (auto simp: closed_objects_def owned_closed_def list_all_iff)
  from ev below disj have ev': "ev < next_free s" "ev \<notin> set ext" by auto
  from h_run_inv [OF run closed ev' loaded vals] obtain own' where
    o: "set ext \<subseteq> own'" "own' \<subseteq> set ext \<union> {next_free s..}"
      "root_ok (snd r) (fst r) (fst ` set (cells s ev)) own'" "next_free s \<le> fst r"
      "\<forall>a. a \<notin> set ext \<and> a < next_free s \<longrightarrow> cells (snd r) a = cells s a"
    by blast
  from o(5) below disj have same: "\<forall>a \<in> set base. cells (snd r) a = cells s a" by auto
  from o(2) below disj have own_base: "own' \<inter> set base = {}" by fastforce
  have t: "tree_of m (snd r) (HRef a) = tree_of m s (HRef a)" if "a \<in> set base" for a
    by (rule tree_of_same(1) [OF base same]) (use that in simp)
  from o(4) below have "fst r \<notin> set base" by auto
  moreover have "list_all (\<lambda>p. map_of (cells s ev) (fst p) \<noteq> None \<or> refs (snd p) \<inter> set base = {})
       (cells (snd r) (fst r))"
    unfolding list_all_iff
  proof
    fix p assume "p \<in> set (cells (snd r) (fst r))"
    with o(3) have "fst p \<in> fst ` set (cells s ev) \<or> refs (snd p) \<subseteq> own'"
      by (auto simp: root_ok_def)
    with own_base show "map_of (cells s ev) (fst p) \<noteq> None \<or> refs (snd p) \<inter> set base = {}"
      by (auto simp: map_of_eq_None_iff)
  qed
  ultimately show "list_all (\<lambda>a. cells (snd r) a = cells s a) base \<and>
     tree_of m (snd r) (HRef tv) = tree_of m s (HRef tv) \<and>
     tree_of m (snd r) (HRef ev) = tree_of m s (HRef ev) \<and>
     fst r \<notin> set base \<and>
     list_all (\<lambda>p. map_of (cells s ev) (fst p) \<noteq> None \<or> refs (snd p) \<inter> set base = {})
       (cells (snd r) (fst r))"
    using same t [OF tv] t [OF ev] by (simp add: list_all_iff)
qed

text \<open>
  Had the seed stored the object of \<^verbatim>\<open>task_vars\<close> itself under \<open>a\<close>, the assignment to
  \<open>a.y\<close> would have written into it.
\<close>

lemma alias_seed_would_mutate:
  "cells (h_set_path (split_dot ''a.y'') (HInt 2) 3 (setitem 3 ''a'' (HRef 1) baseline_store)) 1 =
     [(''x'', HInt 1), (''y'', HInt 2)]"
  by (simp add: baseline_store_def setitem_def sub_dict_def)

lemma h_run_example:
  "\<exists>s'. h_run 4 0 3 (Some [5, 8]) False (Some [(''a.z'', HInt 3), (''p.q'', HInt 5)]) run_store
          = Some (14, s') \<and>
        cells s' 14 = [(''a'', HRef 13), (''p'', HRef 4), (''b'', HInt 7)] \<and>
        cells s' 13 = [(''x'', HInt 1), (''y'', HInt 2), (''z'', HInt 3)] \<and>
        cells s' 10 = [(''a'', HRef 1)]"
  by (simp add: run_store_def h_run_def Let_def new_dict_def copy_dict_def merge_pair_def
      setitem_def h_protect_def h_literals_phase_def h_apply_literal_def h_seed_top_def
      sub_dict_def eval_nat_numeral)

text \<open>
  The run on values gives, for the same inputs, the tree that the target of the run on
  the store stands for.
\<close>

lemma run_example:
  "run merge_world
     \<lparr>files = Some [''d1''],
      literals = Some (PList [PDict [(''path'', PStr ''a.z''), (''value'', PInt 3)],
                              PDict [(''path'', PStr ''p.q''), (''value'', PInt 5)]]),
      ignore_missing_files = None, extensions = None, other_args = []\<rparr>
     [(''ansible_version'', PDict [(''major'', PInt 2), (''minor'', PInt 16)]),
      (''a'', PDict [(''x'', PInt 1)])] =
   Some (Inr \<lparr>result_changed = True,
           ansible_included_var_files = Some [''d1/a.yml'', ''d1/b.yml''],
           ansible_facts =
             [(''a'', PDict [(''x'', PInt 1), (''y'', PInt 2), (''z'', PInt 3)]),
              (''p'', PDict [(''q'', PInt 0)]), (''b'', PInt 7)]\<rparr>)"
  by (simp add: run_def arg_names_def VALID_ARGUMENTS_def files_phase_def initial_state_def
        merge_world_def d1_world_def files_append_def files_of_def dirfiles_def path_join_def
        load_files_own load_file_def extension_allowed_def
        trusted_as_template_def subscript_def version_ge_2_19_def py_ge_int_def Let_def
        merge_hash_def protect_def deep_diff_keys key_union_def diff_key_def new_path_def
        literals_phase_def apply_literal_def seed_top_def finish_def)

theorem baseline_not_mutated_witness:
  "closed_objects run_store [0, 1, 2, 3, 4] \<and> closed_objects run_store [5, 6, 7, 8] \<and>
   (case h_run 4 0 3 (Some [5, 8]) False (Some [(''a.z'', HInt 3), (''p.q'', HInt 5)]) run_store of
      None \<Rightarrow> False
    | Some r \<Rightarrow>
        list_all (\<lambda>a. cells (snd r) a = cells run_store a) [0, 1, 2, 3, 4] \<and>
        tree_of 3 (snd r) (HRef 0) = tree_of 3 run_store (HRef 0) \<and>
        tree_of 3 (snd r) (HRef 0) =
          Some (PDict [(''ansible_version'', PDict [(''major'', PInt 2), (''minor'', PInt 16)]),
                       (''a'', PDict [(''x'', PInt 1)])]) \<and>
        tree_of 3 (snd r) (HRef 3) = Some (PDict [(''p'', PDict [(''q'', PInt 0)])]) \<and>
        tree_of 3 (snd r) (HRef (fst r)) =
          Some (PDict [(''a'', PDict [(''x'', PInt 1), (''y'', PInt 2), (''z'', PInt 3)]),
                       (''p'', PDict [(''q'', PInt 0)]), (''b'', PInt 7)]))"
proof -
  have base: "closed_objects run_store [0, 1, 2, 3, 4]"
    by (simp add: closed_objects_def run_store_def)
  have ext: "closed_objects run_store [5, 6, 7, 8]"
    by (simp add: closed_objects_def run_store_def)
  have t0: "tree_of 3 run_store (HRef 0) =
      Some (PDict [(''ansible_version'', PDict [(''major'', PInt 2), (''minor'', PInt 16)]),
                   (''a'', PDict [(''x'', PInt 1)])])"
    and t3: "tree_of 3 run_store (HRef 3) = Some (PDict [(''p'', PDict [(''q'', PInt 0)])])"
    by (simp_all add: run_store_def eval_nat_numeral)
  from h_run_example obtain s' where
    r: "h_run 4 0 3 (Some [5, 8]) False (Some [(''a.z'', HInt 3), (''p.q'', HInt 5)]) run_store
          = Some (14, s')"
    and c: "cells s' 14 = [(''a'', HRef 13), (''p'', HRef 4), (''b'', HInt 7)]"
      "cells s' 13 = [(''x'', HInt 1), (''y'', HInt 2), (''z'', HInt 3)]"
    by blast
  from baseline_not_mutated [of 4 0 3 "Some [5, 8]" False
      "Some [(''a.z'', HInt 3), (''p.q'', HInt 5)]" run_store "(14, s')"
      "[0, 1, 2, 3, 4]" "[5, 6, 7, 8]" 3] r base ext
  have f: "list_all (\<lambda>a. cells s' a = cells run_store a) [0, 1, 2, 3, 4]"
    "tree_of 3 s' (HRef 0) = tree_of 3 run_store (HRef 0)"
    "tree_of 3 s' (HRef 3) = tree_of 3 run_store (HRef 3)"
    by simp_all
  from f(1) have "cells s' 4 = [(''q'', HInt 0)]" by (simp add: run_store_def)
  with c have "tree_of 3 s' (HRef 14) =
      Some (PDict [(''a'', PDict [(''x'', PInt 1), (''y'', PInt 2), (''z'', PInt 3)]),
                   (''p'', PDict [(''q'', PInt 0)]), (''b'', PInt 7)])"
    by (simp add: eval_nat_numeral)
  with f t0 t3 base ext r show ?thesis by simp
qed

end
